theory Spec2Isabelle
  imports Main "HOL-Library.Word" "HOL-Library.Signed_Division"
begin

unbundle bit_operations_syntax

section \<open>The swap subsystem of pageswap.c\<close>

text \<open>
  The model follows pageswap.c function by function. The kernel's global variables are the
  fields of one record that every operation takes and returns. Spin locks are not
  modelled: each operation runs to completion on its own. A C \<open>int\<close> is 32 bits wide: the
  model computes on integers and writes the two's-complement wrap-around out (\<open>wrap32\<close>)
  at every addition, subtraction and multiplication of the code, and C's truncating
  division is \<open>sdiv\<close>. Page-table entries are 32-bit words; virtual addresses and the
  counters of the loops over addresses are natural numbers.
\<close>

subsection \<open>Machine integers\<close>

text \<open>The value a 32-bit \<open>int\<close> holds after an operation whose exact result is \<open>x\<close>.\<close>

definition wrap32 :: "int \<Rightarrow> int" where
  "wrap32 x = (x + 2 ^ 31) mod 2 ^ 32 - 2 ^ 31"

subsection \<open>Constants of the headers\<close>

type_synonym pte_t = "32 word"

text \<open>Modelled from the spec: mmu.h is not part of the sources. The spec fixes the page
  size at 4096 bytes and names the present, user and accessed flags of a page-table entry;
  their bit positions are those of the x86 page-table format.\<close>

definition PGSIZE :: nat where
  "PGSIZE = 4096"

definition PTE_P :: pte_t where
  "PTE_P = 0x001"

definition PTE_U :: pte_t where
  "PTE_U = 0x004"

definition PTE_A :: pte_t where
  "PTE_A = 0x020"

definition PTE_ADDR :: "pte_t \<Rightarrow> pte_t" where
  "PTE_ADDR pte = pte AND NOT 0xFFF"

definition PGROUNDDOWN :: "32 word \<Rightarrow> 32 word" where
  "PGROUNDDOWN a = a AND NOT (word_of_nat PGSIZE - 1)"

text \<open>Modelled from the spec: fs.h is not part of the sources. The block size is 512
  bytes, eight blocks to a page.\<close>

definition BSIZE :: nat where
  "BSIZE = 512"

subsection \<open>Data\<close>

text \<open>\<open>struct swap_slot\<close>. The field \<open>page_perm\<close> is a C int that only ever holds the
  low twelve bits of a page-table entry; the model keeps its bit pattern.\<close>

record swap_slot =
  page_perm :: "32 word"
  is_free :: int

text \<open>Modelled from the spec: proc.h is not part of the sources. A process has a state,
  a pid, a resident-set size and a page directory; \<open>pgdir\<close> is a pointer, 0 when null.\<close>

datatype procstate = UNUSED | EMBRYO | SLEEPING | RUNNABLE | RUNNING | ZOMBIE

record proc =
  state :: procstate
  pid :: int
  rss :: int
  pgdir :: nat

text \<open>What \<open>cprintf\<close> has printed, one entry per call.\<close>

datatype msg = SwapInitMsg | SwapTraceMsg int int

text \<open>
  The kernel state the file reads and writes:
  \<^item> \<open>slots\<close> is \<open>swap_area.slots\<close>, indexed as in C; only indices 0 to 799 are ever used;
  \<^item> \<open>threshold\<close>, \<open>npages_to_swap\<close>, \<open>alpha\<close>, \<open>beta\<close>, \<open>limit\<close> are the globals of
    the adaptive policy;
  \<^item> \<open>freelist\<close> is \<open>kmem.freelist\<close>, the physical addresses of the free frames;
  \<^item> \<open>physmem\<close> is memory by physical address (the kernel reaches physical address
    \<open>pa\<close> at virtual address \<open>P2V(pa)\<close>), \<open>disk\<close> is the block device, by block number
    and offset in the block;
  \<^item> \<open>pagetables\<close> gives, for a page directory and a virtual page number, the leaf
    entry, or \<open>None\<close> where the directory has no page table for the address;
  \<^item> \<open>ptable\<close> is \<open>ptable.proc\<close>, \<open>curproc\<close> the index of \<open>myproc()\<close>;
  \<^item> \<open>kernbase\<close> stands for the constant KERNBASE of memlayout.h, which is not part
    of the sources; it is a parameter of the model. The C loops count in a \<open>uint\<close>, which
    does not wrap as long as \<open>kernbase + PGSIZE \<le> 2 ^ 32\<close>;
  \<^item> \<open>console\<close> is the output of \<open>cprintf\<close>, \<open>cr3\<close> the page directories loaded by
    \<open>lcr3\<close> (each load flushes the TLB).
\<close>

record kernel =
  slots :: "int \<Rightarrow> swap_slot"
  threshold :: int
  npages_to_swap :: int
  alpha :: int
  beta :: int
  limit :: int
  freelist :: "32 word list"
  physmem :: "nat \<Rightarrow> 8 word"
  disk :: "nat \<Rightarrow> nat \<Rightarrow> 8 word"
  pagetables :: "nat \<Rightarrow> nat \<Rightarrow> pte_t option"
  ptable :: "proc list"
  curproc :: "nat option"
  kernbase :: nat
  console :: "msg list"
  cr3 :: "nat list"

subsection \<open>The helpers pageswap.c calls\<close>

text \<open>Modelled from the spec: the page-table walker of vm.c is not part of the sources.
  \<open>walk(pgdir, va, create)\<close> returns a reference to the leaf entry or NONE, and is only
  called with \<open>create = false\<close>. The reference is the pair of the directory and the page
  number; \<open>walkpgdir\<close> reads through it in the memory that holds the page tables, and
  \<open>set_pte\<close> writes through it.\<close>

type_synonym pagetables_t = "nat \<Rightarrow> nat \<Rightarrow> pte_t option"

definition walkpgdir :: "pagetables_t \<Rightarrow> nat \<Rightarrow> nat \<Rightarrow> pte_t option" where
  "walkpgdir pts pg va = pts pg (va div PGSIZE)"

definition set_pte :: "pagetables_t \<Rightarrow> nat \<Rightarrow> nat \<Rightarrow> pte_t \<Rightarrow> pagetables_t" where
  "set_pte pts pg va v = pts(pg := (pts pg)(va div PGSIZE \<mapsto> v))"

text \<open>Modelled from the spec: \<open>mappages\<close> of vm.c is not part of the sources. It installs
  a mapping from the page at \<open>va\<close> to the frame \<open>pa\<close> with the permissions \<open>perm\<close> and the
  present bit, and fails when there is no leaf entry to write.\<close>

definition mappages :: "kernel \<Rightarrow> nat \<Rightarrow> nat \<Rightarrow> 32 word \<Rightarrow> 32 word \<Rightarrow> int \<times> kernel" where
  "mappages s pg va pa perm =
     (case walkpgdir (pagetables s) pg va of
        None \<Rightarrow> (-1, s)
      | Some _ \<Rightarrow> (0, s\<lparr>pagetables := set_pte (pagetables s) pg va (pa OR perm OR PTE_P)\<rparr>))"

text \<open>Modelled from the spec: the frame allocator of kalloc.c is not part of the sources.
  \<open>alloc_frame\<close> takes a frame off the free list or returns NONE; \<open>free_frame\<close> puts a
  frame back. Frames are named by their physical address.\<close>

definition kalloc :: "kernel \<Rightarrow> 32 word option \<times> kernel" where
  "kalloc s =
     (case freelist s of
        [] \<Rightarrow> (None, s)
      | a # r \<Rightarrow> (Some a, s\<lparr>freelist := r\<rparr>))"

definition kfree :: "kernel \<Rightarrow> 32 word \<Rightarrow> kernel" where
  "kfree s pa = s\<lparr>freelist := pa # freelist s\<rparr>"

text \<open>\<open>lcr3(V2P(pgdir))\<close> reloads the page-directory base register.\<close>

definition lcr3 :: "kernel \<Rightarrow> nat \<Rightarrow> kernel" where
  "lcr3 s pg = s\<lparr>cr3 := cr3 s @ [pg]\<rparr>"

definition cprintf :: "kernel \<Rightarrow> msg \<Rightarrow> kernel" where
  "cprintf s m = s\<lparr>console := console s @ [m]\<rparr>"

subsection \<open>The slot table\<close>

text \<open>\<open>swapInit\<close>: the loop sets every slot free with no permissions.\<close>

function swapInit_loop :: "(int \<Rightarrow> swap_slot) \<Rightarrow> int \<Rightarrow> (int \<Rightarrow> swap_slot)" where
  "swapInit_loop sl i =
     (if i < 800
      then swapInit_loop (sl(i := (sl i)\<lparr>is_free := 1, page_perm := 0\<rparr>)) (i + 1)
      else sl)"
  by pat_completeness auto
termination
  by (relation "measure (\<lambda>(sl, i). nat (800 - i))") auto

declare swapInit_loop.simps [simp del]

definition swapInit :: "kernel \<Rightarrow> kernel" where
  "swapInit s = cprintf (s\<lparr>slots := swapInit_loop (slots s) 0\<rparr>) SwapInitMsg"

text \<open>\<open>findslot\<close>: the scan from index \<open>i\<close>; the result is the index found, or -1.\<close>

function findslot_loop :: "(int \<Rightarrow> swap_slot) \<Rightarrow> int \<Rightarrow> int \<times> (int \<Rightarrow> swap_slot)" where
  "findslot_loop sl i =
     (if i < 800
      then (if is_free (sl i) \<noteq> 0
            then (i, sl(i := (sl i)\<lparr>is_free := 0\<rparr>))
            else findslot_loop sl (i + 1))
      else (-1, sl))"
  by pat_completeness auto
termination
  by (relation "measure (\<lambda>(sl, i). nat (800 - i))") auto

declare findslot_loop.simps [simp del]

definition findslot :: "kernel \<Rightarrow> int \<times> kernel" where
  "findslot s = (case findslot_loop (slots s) 0 of (r, sl) \<Rightarrow> (r, s\<lparr>slots := sl\<rparr>))"

definition freeslot :: "kernel \<Rightarrow> int \<Rightarrow> kernel" where
  "freeslot s slot_index =
     (if slot_index < 0 \<or> slot_index \<ge> 800 then s
      else s\<lparr>slots := (slots s)(slot_index := (slots s slot_index)\<lparr>is_free := 1, page_perm := 0\<rparr>)\<rparr>)"

text \<open>\<open>countpages\<close> counts the frames of the free list in an \<open>int\<close>.\<close>

definition countpages :: "kernel \<Rightarrow> int" where
  "countpages s = wrap32 (int (length (freelist s)))"

text \<open>Modelled from the spec: the buffer cache of bio.c is not part of the sources.
  \<open>buf_read\<close> returns a buffer holding the block, \<open>buf_write\<close> writes the buffer to
  its block. \<open>memmove dst d src n\<close> copies the \<open>n\<close> bytes of \<open>src\<close> to \<open>dst\<close> from
  address \<open>d\<close> on.\<close>

definition bread :: "(nat \<Rightarrow> nat \<Rightarrow> 8 word) \<Rightarrow> nat \<Rightarrow> (nat \<Rightarrow> 8 word)" where
  "bread d blockno = d blockno"

definition bwrite :: "(nat \<Rightarrow> nat \<Rightarrow> 8 word) \<Rightarrow> nat \<Rightarrow> (nat \<Rightarrow> 8 word) \<Rightarrow> (nat \<Rightarrow> nat \<Rightarrow> 8 word)" where
  "bwrite d blockno b = d(blockno := b)"

definition memmove :: "(nat \<Rightarrow> 8 word) \<Rightarrow> nat \<Rightarrow> (nat \<Rightarrow> 8 word) \<Rightarrow> nat \<Rightarrow> (nat \<Rightarrow> 8 word)" where
  "memmove dst d src n = (\<lambda>a. if d \<le> a \<and> a < d + n then src (a - d) else dst a)"

subsection \<open>Eviction and fault-in of one page\<close>

text \<open>The loop of \<open>swappageout\<close> that writes the frame at \<open>pa\<close> to the eight blocks from
  \<open>blockno\<close> on.\<close>

definition swappageout_write ::
  "(nat \<Rightarrow> 8 word) \<Rightarrow> (nat \<Rightarrow> nat \<Rightarrow> 8 word) \<Rightarrow> nat \<Rightarrow> 32 word \<Rightarrow> (nat \<Rightarrow> nat \<Rightarrow> 8 word)" where
  "swappageout_write mem d blockno pa =
     fold (\<lambda>i d. bwrite d (blockno + i)
                    (memmove (bread d (blockno + i)) 0 (\<lambda>k. mem (unat pa + i * BSIZE + k)) BSIZE))
          [0..<8] d"

definition swappageout :: "kernel \<Rightarrow> nat \<Rightarrow> nat \<Rightarrow> 32 word \<Rightarrow> int \<times> kernel" where
  "swappageout s pg va pa =
     (case findslot s of (slot_index, s1) \<Rightarrow>
        if slot_index < 0 then (-1, s1)
        else
          let blockno = 2 + nat slot_index * 8 in
          (case walkpgdir (pagetables s1) pg va of
             None \<Rightarrow> (-1, s1)
           | Some pte \<Rightarrow>
               if pte AND PTE_P = 0 then (-1, s1)
               else
                 let s2 = s1\<lparr>slots := (slots s1)(slot_index :=
                                (slots s1 slot_index)\<lparr>page_perm := pte AND 0xFFF\<rparr>)\<rparr>;
                     s3 = s2\<lparr>disk := swappageout_write (physmem s2) (disk s2) blockno pa\<rparr>;
                     s4 = s3\<lparr>pagetables := set_pte (pagetables s3) pg va
                            (push_bit 12 (word_of_int slot_index) OR (pte AND NOT PTE_P AND 0xFFF))\<rparr>
                 in (0, lcr3 s4 pg)))"

subsection \<open>Victim selection\<close>

text \<open>\<open>findproc\<close>: the scan of the process table from index \<open>i\<close>, with the victim so far
  (an index, \<open>None\<close> for the null pointer) and \<open>max_rss\<close>.\<close>

function findproc_loop :: "proc list \<Rightarrow> nat \<Rightarrow> nat option \<Rightarrow> int \<Rightarrow> nat option" where
  "findproc_loop tbl i victim max_rss =
     (if i < length tbl
      then (let p = tbl ! i in
            if state p = UNUSED \<or> pid p < 1
            then findproc_loop tbl (i + 1) victim max_rss
            else if rss p > max_rss \<or>
                    (rss p = max_rss \<and>
                     (case victim of None \<Rightarrow> False | Some v \<Rightarrow> pid p < pid (tbl ! v)))
            then findproc_loop tbl (i + 1) (Some i) (rss p)
            else findproc_loop tbl (i + 1) victim max_rss)
      else victim)"
  by pat_completeness auto
termination
  by (relation "measure (\<lambda>(tbl, i, victim, max_rss). length tbl - i)") auto

declare findproc_loop.simps [simp del]

definition findproc :: "kernel \<Rightarrow> nat option" where
  "findproc s = findproc_loop (ptable s) 0 None 0"

text \<open>\<open>findpage\<close>, its three loops from address \<open>i\<close> on. The first pass returns the first
  present user page whose accessed bit is clear, the sweep clears the accessed bit of
  every present user page, the second pass returns the first present user page. A pass
  returns the pair of \<open>*va_out\<close> and the physical address, \<open>None\<close> when it runs to the
  end.\<close>

function findpage_pass1 :: "pagetables_t \<Rightarrow> nat \<Rightarrow> nat \<Rightarrow> nat \<Rightarrow> (nat \<times> 32 word) option" where
  "findpage_pass1 pts pg kb i =
     (if i < kb
      then (case walkpgdir pts pg i of
              None \<Rightarrow> findpage_pass1 pts pg kb (i + PGSIZE)
            | Some pte \<Rightarrow>
                if pte AND PTE_P = 0 \<or> pte AND PTE_U = 0
                then findpage_pass1 pts pg kb (i + PGSIZE)
                else if pte AND PTE_A = 0
                then Some (i, PTE_ADDR pte)
                else findpage_pass1 pts pg kb (i + PGSIZE))
      else None)"
  by pat_completeness auto
termination
  by (relation "measure (\<lambda>(pts, pg, kb, i). kb - i)") (auto simp: PGSIZE_def)

declare findpage_pass1.simps [simp del]

function findpage_sweep :: "pagetables_t \<Rightarrow> nat \<Rightarrow> nat \<Rightarrow> nat \<Rightarrow> pagetables_t" where
  "findpage_sweep pts pg kb i =
     (if i < kb
      then (case walkpgdir pts pg i of
              None \<Rightarrow> findpage_sweep pts pg kb (i + PGSIZE)
            | Some pte \<Rightarrow>
                if pte AND PTE_P = 0 \<or> pte AND PTE_U = 0
                then findpage_sweep pts pg kb (i + PGSIZE)
                else findpage_sweep (set_pte pts pg i (pte AND NOT PTE_A)) pg kb (i + PGSIZE))
      else pts)"
  by pat_completeness auto
termination
  by (relation "measure (\<lambda>(pts, pg, kb, i). kb - i)") (auto simp: PGSIZE_def)

declare findpage_sweep.simps [simp del]

function findpage_pass2 :: "pagetables_t \<Rightarrow> nat \<Rightarrow> nat \<Rightarrow> nat \<Rightarrow> (nat \<times> 32 word) option" where
  "findpage_pass2 pts pg kb i =
     (if i < kb
      then (case walkpgdir pts pg i of
              None \<Rightarrow> findpage_pass2 pts pg kb (i + PGSIZE)
            | Some pte \<Rightarrow>
                if pte AND PTE_P = 0 \<or> pte AND PTE_U = 0
                then findpage_pass2 pts pg kb (i + PGSIZE)
                else Some (i, PTE_ADDR pte))
      else None)"
  by pat_completeness auto
termination
  by (relation "measure (\<lambda>(pts, pg, kb, i). kb - i)") (auto simp: PGSIZE_def)

declare findpage_pass2.simps [simp del]

text \<open>\<open>findpage\<close> returns the pair written to \<open>*va_out\<close> and returned, or \<open>None\<close> where
  the C function returns 0 at its end without writing \<open>*va_out\<close>.\<close>

definition findpage :: "kernel \<Rightarrow> nat \<Rightarrow> (nat \<times> 32 word) option \<times> kernel" where
  "findpage s pg =
     (case findpage_pass1 (pagetables s) pg (kernbase s) 0 of
        Some r \<Rightarrow> (Some r, s)
      | None \<Rightarrow>
          let s1 = s\<lparr>pagetables := findpage_sweep (pagetables s) pg (kernbase s) 0\<rparr>;
              s2 = lcr3 s1 pg
          in (findpage_pass2 (pagetables s2) pg (kernbase s2) 0, s2))"

subsection \<open>The replacement controller\<close>

text \<open>The loop of \<open>swapout\<close> reads \<open>npages_to_swap\<close> anew at each turn; no call in its
  body writes it, and \<open>attempts\<close> grows at each turn, which is why the loop ends.\<close>

lemma findpage_npages: "findpage s pg = (r, s1) \<Longrightarrow> npages_to_swap s1 = npages_to_swap s"
  by (auto simp: findpage_def lcr3_def Let_def split: option.splits)

lemma findslot_npages: "findslot s = (r, s1) \<Longrightarrow> npages_to_swap s1 = npages_to_swap s"
  by (auto simp: findslot_def split: prod.splits)

lemma swappageout_npages:
  "swappageout s pg va pa = (r, s1) \<Longrightarrow> npages_to_swap s1 = npages_to_swap s"
  by (auto simp: swappageout_def lcr3_def Let_def dest: findslot_npages
           split: prod.splits option.splits if_splits)

lemma wrap32_range: "- (2 ^ 31) \<le> wrap32 x \<and> wrap32 x < 2 ^ 31"
  by (simp add: wrap32_def)

lemma wrap32_id: "- (2 ^ 31) \<le> x \<Longrightarrow> x < 2 ^ 31 \<Longrightarrow> wrap32 x = x"
  by (simp add: wrap32_def)

lemma swapout_measure:
  assumes "swapped < n \<and> attempts < wrap32 (n * 2)"
  shows "nat (wrap32 (n * 2) - wrap32 (attempts + 1)) < nat (wrap32 (n * 2) - attempts)"
proof -
  have lt: "attempts < wrap32 (n * 2)" using assms by simp
  have "attempts < wrap32 (attempts + 1)"
  proof (cases "- (2 ^ 31) \<le> attempts")
    case True
    moreover have "attempts + 1 < 2 ^ 31" using lt wrap32_range [of "n * 2"] by simp
    ultimately have "wrap32 (attempts + 1) = attempts + 1" by (intro wrap32_id) simp_all
    then show ?thesis by simp
  next
    case False
    with wrap32_range [of "attempts + 1"] show ?thesis by simp
  qed
  with lt show ?thesis by simp
qed

text \<open>\<open>swapout\<close>: the loop, for the victim at index \<open>v\<close> of the process table, with the
  counters \<open>swapped\<close> and \<open>attempts\<close>.\<close>

function swapout_loop :: "kernel \<Rightarrow> nat \<Rightarrow> int \<Rightarrow> int \<Rightarrow> kernel" where
  "swapout_loop s v swapped attempts =
     (if swapped < npages_to_swap s \<and> attempts < wrap32 (npages_to_swap s * 2)
      then (case findpage s (pgdir (ptable s ! v)) of
              (None, s1) \<Rightarrow> s1
            | (Some (va, pa), s1) \<Rightarrow>
                if pa = 0 then s1
                else (case swappageout s1 (pgdir (ptable s1 ! v)) va pa of (r, s2) \<Rightarrow>
                        if r = 0
                        then (let s3 = s2\<lparr>ptable := (ptable s2)[v := (ptable s2 ! v)\<lparr>rss := wrap32 (rss (ptable s2 ! v) - 1)\<rparr>]\<rparr>;
                                  s4 = kfree s3 pa
                              in swapout_loop s4 v (wrap32 (swapped + 1)) (wrap32 (attempts + 1)))
                        else swapout_loop s2 v swapped (wrap32 (attempts + 1))))
      else s)"
  by pat_completeness auto
termination
  apply (relation "measure (\<lambda>(s, v, swapped, attempts). nat (wrap32 (npages_to_swap s * 2) - attempts))")
    apply simp
   apply (frule findpage_npages [OF sym], frule swappageout_npages [OF sym], frule swapout_measure,
      simp add: kfree_def)
  apply (frule findpage_npages [OF sym], frule swappageout_npages [OF sym], frule swapout_measure,
      simp)
  done

declare swapout_loop.simps [simp del]

definition swapout :: "kernel \<Rightarrow> kernel" where
  "swapout s =
     (case findproc s of
        None \<Rightarrow> s
      | Some victim \<Rightarrow> swapout_loop s victim 0 0)"

definition checkAswap :: "kernel \<Rightarrow> kernel" where
  "checkAswap s =
     (let free_pages = countpages s in
      if free_pages \<le> threshold s
      then (let s1 = cprintf s (SwapTraceMsg (threshold s) (npages_to_swap s));
                s2 = swapout s1;
                s3 = s2\<lparr>threshold :=
                          wrap32 (threshold s2 - wrap32 (threshold s2 * beta s2) sdiv 100)\<rparr>;
                s4 = (if threshold s3 < 1 then s3\<lparr>threshold := 1\<rparr> else s3);
                s5 = s4\<lparr>npages_to_swap :=
                          wrap32 (npages_to_swap s4 + wrap32 (npages_to_swap s4 * alpha s4) sdiv 100)\<rparr>
            in if npages_to_swap s5 > limit s5 then s5\<lparr>npages_to_swap := limit s5\<rparr> else s5)
      else s)"

subsection \<open>Fault-in, exit and fork\<close>

text \<open>The loop of \<open>swappage_in\<close> that reads the eight blocks from \<open>blockno\<close> on into the
  frame at \<open>m\<close>.\<close>

definition swappage_in_read ::
  "(nat \<Rightarrow> 8 word) \<Rightarrow> (nat \<Rightarrow> nat \<Rightarrow> 8 word) \<Rightarrow> nat \<Rightarrow> 32 word \<Rightarrow> (nat \<Rightarrow> 8 word)" where
  "swappage_in_read mem d blockno m =
     fold (\<lambda>i mem. memmove mem (unat m + i * BSIZE) (bread d (blockno + i)) BSIZE) [0..<8] mem"

text \<open>\<open>swappage_in\<close> from the point where the frame \<open>m\<close> has been allocated.\<close>

definition swappage_in_frame :: "kernel \<Rightarrow> nat \<Rightarrow> nat \<Rightarrow> int \<Rightarrow> 32 word \<Rightarrow> int \<times> kernel" where
  "swappage_in_frame s pg page_addr slot_index m =
     (let blockno = 2 + nat slot_index * 8;
          s1 = s\<lparr>physmem := swappage_in_read (physmem s) (disk s) blockno m\<rparr>;
          perm = page_perm (slots s1 slot_index) OR PTE_P
      in case mappages s1 pg page_addr m perm of (r, s2) \<Rightarrow>
           if r < 0 then (-1, kfree s2 m)
           else
             let s3 = freeslot s2 slot_index
             in (0, case curproc s3 of
                      None \<Rightarrow> s3
                    | Some p \<Rightarrow> s3\<lparr>ptable := (ptable s3)[p := (ptable s3 ! p)\<lparr>rss := wrap32 (rss (ptable s3 ! p) + 1)\<rparr>]\<rparr>))"

text \<open>The slot index is read from an entry with \<open>int slot_index = PTE_ADDR(*pte) >> 12\<close>.\<close>

definition pte_slot :: "pte_t \<Rightarrow> int" where
  "pte_slot pte = sint (drop_bit 12 (PTE_ADDR pte))"

definition swappage_in :: "kernel \<Rightarrow> nat \<Rightarrow> 32 word \<Rightarrow> int \<times> kernel" where
  "swappage_in s pg va =
     (let page_addr = unat (PGROUNDDOWN va) in
      case walkpgdir (pagetables s) pg page_addr of
        None \<Rightarrow> (-1, s)
      | Some pte \<Rightarrow>
          if pte AND PTE_P \<noteq> 0 then (0, s)
          else
            let slot_index = pte_slot pte in
            if slot_index < 0 \<or> slot_index \<ge> 800 \<or> is_free (slots s slot_index) \<noteq> 0
            then (-1, s)
            else (case kalloc s of
                    (Some m, s1) \<Rightarrow> swappage_in_frame s1 pg page_addr slot_index m
                  | (None, s1) \<Rightarrow>
                      (case kalloc (checkAswap s1) of
                         (None, s2) \<Rightarrow> (-1, s2)
                       | (Some m, s2) \<Rightarrow> swappage_in_frame s2 pg page_addr slot_index m)))"

text \<open>\<open>swapFree\<close>: the loop over the addresses from \<open>i\<close> on; \<open>p\<close> is the index of the
  process in the table, \<open>None\<close> for the null pointer.\<close>

function swapFree_loop :: "kernel \<Rightarrow> nat \<Rightarrow> nat \<Rightarrow> kernel" where
  "swapFree_loop s pg i =
     (if i < kernbase s
      then (case walkpgdir (pagetables s) pg i of
              None \<Rightarrow> swapFree_loop s pg (i + PGSIZE)
            | Some pte \<Rightarrow>
                if pte AND PTE_P = 0 \<and> pte \<noteq> 0
                then (let slot_index = pte_slot pte in
                      if slot_index \<ge> 0 \<and> slot_index < 800
                      then swapFree_loop (freeslot s slot_index) pg (i + PGSIZE)
                      else swapFree_loop s pg (i + PGSIZE))
                else swapFree_loop s pg (i + PGSIZE))
      else s)"
  by pat_completeness auto
termination
  by (relation "measure (\<lambda>(s, pg, i). kernbase s - i)") (auto simp: PGSIZE_def freeslot_def)

declare swapFree_loop.simps [simp del]

definition swapFree :: "kernel \<Rightarrow> nat option \<Rightarrow> kernel" where
  "swapFree s p =
     (case p of
        None \<Rightarrow> s
      | Some i \<Rightarrow>
          if pgdir (ptable s ! i) = 0 then s
          else swapFree_loop s (pgdir (ptable s ! i)) 0)"

text \<open>The loop of \<open>duplicateslot\<close> that copies the eight blocks of the parent's slot to
  the child's.\<close>

definition duplicateslot_copy ::
  "(nat \<Rightarrow> nat \<Rightarrow> 8 word) \<Rightarrow> nat \<Rightarrow> nat \<Rightarrow> (nat \<Rightarrow> nat \<Rightarrow> 8 word)" where
  "duplicateslot_copy d parent_blockno child_blockno =
     fold (\<lambda>i d. bwrite d (child_blockno + i)
                    (memmove (bread d (child_blockno + i)) 0 (bread d (parent_blockno + i)) BSIZE))
          [0..<8] d"

text \<open>\<open>duplicateslot\<close> from the point where the child's slot has been found.\<close>

definition duplicateslot_found :: "kernel \<Rightarrow> int \<Rightarrow> int \<Rightarrow> int \<times> kernel" where
  "duplicateslot_found s parent_slot child_slot =
     (let s1 = s\<lparr>slots := (slots s)(child_slot :=
                   (slots s child_slot)\<lparr>page_perm := page_perm (slots s parent_slot)\<rparr>)\<rparr>;
          parent_blockno = 2 + nat parent_slot * 8;
          child_blockno = 2 + nat child_slot * 8
      in (child_slot, s1\<lparr>disk := duplicateslot_copy (disk s1) parent_blockno child_blockno\<rparr>))"

definition duplicateslot :: "kernel \<Rightarrow> int \<Rightarrow> int \<times> kernel" where
  "duplicateslot s parent_slot =
     (if parent_slot < 0 \<or> parent_slot \<ge> 800 \<or> is_free (slots s parent_slot) \<noteq> 0
      then (-1, s)
      else (case findslot s of (child_slot, s1) \<Rightarrow>
              if child_slot < 0
              then (case findslot (checkAswap s1) of (child_slot, s2) \<Rightarrow>
                      if child_slot < 0
                      then (case findslot (checkAswap s2) of (child_slot, s3) \<Rightarrow>
                              if child_slot < 0 then (-1, s3)
                              else duplicateslot_found s3 parent_slot child_slot)
                      else duplicateslot_found s2 parent_slot child_slot)
              else duplicateslot_found s1 parent_slot child_slot))"

subsection \<open>States used in examples\<close>

text \<open>The state after boot: the initial values of the globals as pageswap.c gives them,
  every slot free, nothing mapped, no process, no free frame.\<close>

definition free_slot :: swap_slot where
  "free_slot = \<lparr>page_perm = 0, is_free = 1\<rparr>"

definition used_slot :: "32 word \<Rightarrow> swap_slot" where
  "used_slot perm = \<lparr>page_perm = perm, is_free = 0\<rparr>"

definition boot :: kernel where
  "boot = \<lparr>slots = (\<lambda>i. free_slot), threshold = 100, npages_to_swap = 4, alpha = 25,
            beta = 10, limit = 100, freelist = [], physmem = (\<lambda>a. 0), disk = (\<lambda>b k. 0),
            pagetables = (\<lambda>pg vpn. None), ptable = [], curproc = None,
            kernbase = 0x80000000, console = [], cr3 = []\<rparr>"

section \<open>The slot table: first fit\<close>

lemma findslot_loop_spec:
  "findslot_loop sl i = (r, sl') \<Longrightarrow> 0 \<le> i \<Longrightarrow>
     (r = -1 \<and> sl' = sl \<and> (\<forall>j. i \<le> j \<and> j < 800 \<longrightarrow> is_free (sl j) = 0)) \<or>
     (i \<le> r \<and> r < 800 \<and> is_free (sl r) \<noteq> 0 \<and> (\<forall>j. i \<le> j \<and> j < r \<longrightarrow> is_free (sl j) = 0)
        \<and> sl' = sl(r := (sl r)\<lparr>is_free := 0\<rparr>))"
proof (induction sl i rule: findslot_loop.induct)
  case (1 sl i)
  show ?case
  proof (cases "i < 800")
    case False
    with "1.prems" show ?thesis by (simp add: findslot_loop.simps [of sl i])
  next
    case lt: True
    show ?thesis
    proof (cases "is_free (sl i) \<noteq> 0")
      case True
      with lt "1.prems" show ?thesis by (auto simp: findslot_loop.simps [of sl i])
    next
      case False
      with lt "1.prems" have rec: "findslot_loop sl (i + 1) = (r, sl')"
        by (simp add: findslot_loop.simps [of sl i])
      have i1: "0 \<le> i + 1" using "1.prems"(2) by simp
      note ih = "1.IH" [OF lt False rec i1]
      have step: "\<And>j. i \<le> j \<Longrightarrow> j = i \<or> i + 1 \<le> j" by linarith
      from ih show ?thesis
      proof
        assume h: "r = -1 \<and> sl' = sl \<and> (\<forall>j. i + 1 \<le> j \<and> j < 800 \<longrightarrow> is_free (sl j) = 0)"
        have "\<forall>j. i \<le> j \<and> j < 800 \<longrightarrow> is_free (sl j) = 0"
          using h False step by blast
        with h show ?thesis by blast
      next
        assume h: "i + 1 \<le> r \<and> r < 800 \<and> is_free (sl r) \<noteq> 0 \<and>
          (\<forall>j. i + 1 \<le> j \<and> j < r \<longrightarrow> is_free (sl j) = 0) \<and> sl' = sl(r := (sl r)\<lparr>is_free := 0\<rparr>)"
        have "\<forall>j. i \<le> j \<and> j < r \<longrightarrow> is_free (sl j) = 0"
          using h False step by blast
        moreover have "i \<le> r" using h by linarith
        ultimately show ?thesis using h by blast
      qed
    qed
  qed
qed

lemma findslot_cases:
  assumes "findslot s = (r, s')"
  shows "(r = -1 \<and> s' = s \<and> (\<forall>j. 0 \<le> j \<and> j < 800 \<longrightarrow> is_free (slots s j) = 0)) \<or>
     (0 \<le> r \<and> r < 800 \<and> is_free (slots s r) \<noteq> 0 \<and>
      (\<forall>j. 0 \<le> j \<and> j < r \<longrightarrow> is_free (slots s j) = 0) \<and>
      s' = s\<lparr>slots := (slots s)(r := (slots s r)\<lparr>is_free := 0\<rparr>)\<rparr>)"
proof -
  obtain sl' where l: "findslot_loop (slots s) 0 = (r, sl')" and s': "s' = s\<lparr>slots := sl'\<rparr>"
    using assms by (auto simp: findslot_def split: prod.splits)
  from findslot_loop_spec [OF l] s' show ?thesis by auto
qed

text \<open>
  C6. In every state of the slot table, \<open>findslot\<close> returns -1 exactly when no slot
  from 0 to 799 is free, and then changes nothing; otherwise it returns the lowest index of
  a free slot, and the only change to the state is that this slot is marked used. The
  result is a function of the table, so the first-fit order is deterministic.
\<close>

theorem findslot_first_fit:
  "findslot s = (r, s') \<Longrightarrow>
     (r = -1 \<longleftrightarrow> (\<forall>j. 0 \<le> j \<and> j < 800 \<longrightarrow> is_free (slots s j) = 0)) \<and>
     (r = -1 \<longrightarrow> s' = s) \<and>
     (r \<noteq> -1 \<longrightarrow> 0 \<le> r \<and> r < 800 \<and> is_free (slots s r) \<noteq> 0 \<and>
        (\<forall>j. 0 \<le> j \<and> j < r \<longrightarrow> is_free (slots s j) = 0) \<and>
        s' = s\<lparr>slots := (slots s)(r := (slots s r)\<lparr>is_free := 0\<rparr>)\<rparr>)"
  using findslot_cases [of s r s'] by auto

theorem findslot_first_fit_witness:
  "findslot (boot\<lparr>slots := (slots boot)(0 := used_slot 7, 1 := used_slot 5)\<rparr>) =
     (2, boot\<lparr>slots := (slots boot)(0 := used_slot 7, 1 := used_slot 5, 2 := free_slot\<lparr>is_free := 0\<rparr>)\<rparr>)
   \<and> is_free (slots (boot\<lparr>slots := (slots boot)(0 := used_slot 7, 1 := used_slot 5)\<rparr>) 2) \<noteq> 0
   \<and> is_free (slots (boot\<lparr>slots := (slots boot)(0 := used_slot 7, 1 := used_slot 5)\<rparr>) 0) = 0
   \<and> is_free (slots (boot\<lparr>slots := (slots boot)(0 := used_slot 7, 1 := used_slot 5)\<rparr>) 1) = 0"
proof -
  have h: "findslot (boot\<lparr>slots := (slots boot)(0 := used_slot 7, 1 := used_slot 5)\<rparr>) =
     (2, boot\<lparr>slots := (slots boot)(0 := used_slot 7, 1 := used_slot 5, 2 := free_slot\<lparr>is_free := 0\<rparr>)\<rparr>)"
    by (simp add: findslot_def findslot_loop.simps boot_def used_slot_def free_slot_def)
  from findslot_first_fit [OF h] h show ?thesis by (simp add: used_slot_def)
qed

section \<open>Victim process\<close>

text \<open>A process is considered when it is not UNUSED and its pid is positive.\<close>

definition eligible :: "proc \<Rightarrow> bool" where
  "eligible p = (state p \<noteq> UNUSED \<and> 1 \<le> pid p)"

text \<open>What the loop of \<open>findproc\<close> knows after the entries below \<open>i\<close>.\<close>

definition findproc_inv :: "proc list \<Rightarrow> nat \<Rightarrow> nat option \<Rightarrow> int \<Rightarrow> bool" where
  "findproc_inv tbl i victim max_rss =
     (case victim of
        None \<Rightarrow> max_rss = 0 \<and> (\<forall>j<i. eligible (tbl ! j) \<longrightarrow> rss (tbl ! j) \<le> 0)
      | Some v \<Rightarrow> v < i \<and> eligible (tbl ! v) \<and> rss (tbl ! v) = max_rss \<and> 0 < max_rss \<and>
          (\<forall>j<i. eligible (tbl ! j) \<longrightarrow>
             rss (tbl ! j) \<le> max_rss \<and> (rss (tbl ! j) = max_rss \<longrightarrow> pid (tbl ! v) \<le> pid (tbl ! j))))"

lemma findproc_inv_skip:
  "findproc_inv tbl i victim m \<Longrightarrow> \<not> eligible (tbl ! i) \<Longrightarrow> findproc_inv tbl (Suc i) victim m"
  by (auto simp: findproc_inv_def less_Suc_eq split: option.splits)

lemma findproc_inv_take:
  assumes "findproc_inv tbl i victim m" "eligible (tbl ! i)"
    and "rss (tbl ! i) > m \<or>
         (rss (tbl ! i) = m \<and> (case victim of None \<Rightarrow> False | Some v \<Rightarrow> pid (tbl ! i) < pid (tbl ! v)))"
  shows "findproc_inv tbl (Suc i) (Some i) (rss (tbl ! i))"
proof (cases victim)
  case None
  with assms show ?thesis
    by (auto simp: findproc_inv_def less_Suc_eq)
next
  case (Some v)
  with assms show ?thesis
    by (fastforce simp: findproc_inv_def less_Suc_eq)
qed

lemma findproc_inv_keep:
  assumes "findproc_inv tbl i victim m" "eligible (tbl ! i)"
    and "\<not> (rss (tbl ! i) > m \<or>
         (rss (tbl ! i) = m \<and> (case victim of None \<Rightarrow> False | Some v \<Rightarrow> pid (tbl ! i) < pid (tbl ! v))))"
  shows "findproc_inv tbl (Suc i) victim m"
proof (cases victim)
  case None
  with assms show ?thesis
    by (auto simp: findproc_inv_def less_Suc_eq)
next
  case (Some v)
  with assms show ?thesis
    by (fastforce simp: findproc_inv_def less_Suc_eq)
qed

lemma findproc_loop_inv:
  "findproc_inv tbl i victim m \<Longrightarrow> i \<le> length tbl \<Longrightarrow>
     \<exists>m'. findproc_inv tbl (length tbl) (findproc_loop tbl i victim m) m'"
proof (induction tbl i victim m rule: findproc_loop.induct)
  case (1 tbl i victim max_rss)
  show ?case
  proof (cases "i < length tbl")
    case False
    then have r: "findproc_loop tbl i victim max_rss = victim"
      by (simp add: findproc_loop.simps [of tbl i])
    from False "1.prems" have "i = length tbl" by simp
    with "1.prems"(1) r show ?thesis by auto
  next
    case lt: True
    then have le: "i + 1 \<le> length tbl" by simp
    let ?p = "tbl ! i"
    show ?thesis
    proof (cases "state ?p = UNUSED \<or> pid ?p < 1")
      case True
      then have "\<not> eligible ?p" by (auto simp: eligible_def)
      from findproc_inv_skip [OF "1.prems"(1) this]
      have "findproc_inv tbl (i + 1) victim max_rss" by simp
      from "1.IH"(1) [OF lt refl True this le] lt True show ?thesis
        by (auto simp add: findproc_loop.simps [of tbl i] Let_def)
    next
      case False
      then have el: "eligible ?p" by (auto simp: eligible_def)
      show ?thesis
      proof (cases "rss ?p > max_rss \<or> (rss ?p = max_rss \<and>
                (case victim of None \<Rightarrow> False | Some v \<Rightarrow> pid ?p < pid (tbl ! v)))")
        case True
        from findproc_inv_take [OF "1.prems"(1) el True]
        have "findproc_inv tbl (i + 1) (Some i) (rss ?p)" by simp
        from "1.IH"(2) [OF lt refl False True this le] lt False True show ?thesis
          by (auto simp add: findproc_loop.simps [of tbl i] Let_def)
      next
        case no: False
        from findproc_inv_keep [OF "1.prems"(1) el no]
        have "findproc_inv tbl (i + 1) victim max_rss" by simp
        from "1.IH"(3) [OF lt refl False no this le] lt False no show ?thesis
          by (auto simp add: findproc_loop.simps [of tbl i] Let_def)
      qed
    qed
  qed
qed

lemma findproc_final: "\<exists>m. findproc_inv (ptable s) (length (ptable s)) (findproc s) m"
  unfolding findproc_def
  by (rule findproc_loop_inv) (simp_all add: findproc_inv_def)

text \<open>
  C7. \<open>findproc\<close> looks only at the processes that are not UNUSED and have a positive
  pid. It returns no victim exactly when none of them has a positive \<open>rss\<close>. Otherwise
  the victim is one of them, its \<open>rss\<close> is positive and the largest, and among the
  processes with that \<open>rss\<close> its pid is the smallest.
\<close>

theorem findproc_largest_rss:
  "(findproc s = None \<longleftrightarrow>
      (\<forall>j<length (ptable s). eligible (ptable s ! j) \<longrightarrow> rss (ptable s ! j) \<le> 0)) \<and>
   (\<forall>v. findproc s = Some v \<longrightarrow>
      v < length (ptable s) \<and> eligible (ptable s ! v) \<and> 0 < rss (ptable s ! v) \<and>
      (\<forall>j<length (ptable s). eligible (ptable s ! j) \<longrightarrow>
         rss (ptable s ! j) \<le> rss (ptable s ! v) \<and>
         (rss (ptable s ! j) = rss (ptable s ! v) \<longrightarrow> pid (ptable s ! v) \<le> pid (ptable s ! j))))"
proof -
  obtain m where inv: "findproc_inv (ptable s) (length (ptable s)) (findproc s) m"
    using findproc_final by blast
  show ?thesis
  proof (cases "findproc s")
    case None
    with inv show ?thesis by (simp add: findproc_inv_def)
  next
    case (Some v)
    with inv have v: "v < length (ptable s)" "eligible (ptable s ! v)" "0 < rss (ptable s ! v)"
      and mx: "\<forall>j<length (ptable s). eligible (ptable s ! j) \<longrightarrow>
         rss (ptable s ! j) \<le> rss (ptable s ! v) \<and>
         (rss (ptable s ! j) = rss (ptable s ! v) \<longrightarrow> pid (ptable s ! v) \<le> pid (ptable s ! j))"
      by (auto simp: findproc_inv_def)
    from v have "\<not> (\<forall>j<length (ptable s). eligible (ptable s ! j) \<longrightarrow> rss (ptable s ! j) \<le> 0)"
      by force
    with Some v mx show ?thesis by simp
  qed
qed

text \<open>The processes of scenario S2, in either order of the table: the victim has pid 7.\<close>

definition proc7 :: proc where
  "proc7 = \<lparr>state = RUNNABLE, pid = 7, rss = 50, pgdir = 1\<rparr>"

definition proc12 :: proc where
  "proc12 = \<lparr>state = SLEEPING, pid = 12, rss = 50, pgdir = 2\<rparr>"

theorem findproc_largest_rss_witness:
  "findproc (boot\<lparr>ptable := [proc12, proc7]\<rparr>) = Some 1 \<and>
   findproc (boot\<lparr>ptable := [proc7, proc12]\<rparr>) = Some 0 \<and>
   pid (ptable (boot\<lparr>ptable := [proc12, proc7]\<rparr>) ! 1) = 7 \<and>
   eligible (ptable (boot\<lparr>ptable := [proc12, proc7]\<rparr>) ! 1) \<and>
   0 < rss (ptable (boot\<lparr>ptable := [proc12, proc7]\<rparr>) ! 1)"
proof -
  have h: "findproc (boot\<lparr>ptable := [proc12, proc7]\<rparr>) = Some 1"
    by (simp add: findproc_def findproc_loop.simps proc7_def proc12_def)
  have h': "findproc (boot\<lparr>ptable := [proc7, proc12]\<rparr>) = Some 0"
    by (simp add: findproc_def findproc_loop.simps proc7_def proc12_def)
  from findproc_largest_rss [of "boot\<lparr>ptable := [proc12, proc7]\<rparr>"] h h'
  show ?thesis by (simp add: proc7_def)
qed

section \<open>Victim page\<close>

text \<open>The entries the passes of \<open>findpage\<close> stop at: present and user-accessible, and
  for the first pass with the accessed bit clear. \<open>clear_A\<close> is what the sweep does to an
  entry.\<close>

definition user_present :: "pte_t option \<Rightarrow> bool" where
  "user_present e =
     (case e of None \<Rightarrow> False | Some pte \<Rightarrow> pte AND PTE_P \<noteq> 0 \<and> pte AND PTE_U \<noteq> 0)"

definition not_accessed :: "pte_t option \<Rightarrow> bool" where
  "not_accessed e = (case e of None \<Rightarrow> False | Some pte \<Rightarrow> pte AND PTE_A = 0)"

definition clear_A :: "pte_t option \<Rightarrow> pte_t option" where
  "clear_A e = (if user_present e then map_option (\<lambda>pte. pte AND NOT PTE_A) e else e)"

lemma walkpgdir_page [simp]: "walkpgdir pts pg (n * PGSIZE) = pts pg n"
  by (simp add: walkpgdir_def PGSIZE_def)

lemma set_pte_page: "set_pte pts pg (n * PGSIZE) v = pts(pg := (pts pg)(n \<mapsto> v))"
  by (simp add: set_pte_def PGSIZE_def)

lemma page_step: "n * PGSIZE + PGSIZE = Suc n * PGSIZE"
  by simp

lemma page_beyond: "\<not> n * PGSIZE < kb \<Longrightarrow> n \<le> m \<Longrightarrow> \<not> m * PGSIZE < kb"
  using mult_le_mono1 [of n m PGSIZE] by linarith

lemma findpage_pass1_end: "\<not> i < kb \<Longrightarrow> findpage_pass1 pts pg kb i = None"
  by (subst findpage_pass1.simps) simp

lemma findpage_pass1_hit:
  "i < kb \<Longrightarrow> walkpgdir pts pg i = Some pte \<Longrightarrow> user_present (Some pte) \<Longrightarrow>
   not_accessed (Some pte) \<Longrightarrow> findpage_pass1 pts pg kb i = Some (i, PTE_ADDR pte)"
  by (subst findpage_pass1.simps) (simp add: user_present_def not_accessed_def)

lemma findpage_pass1_step:
  "i < kb \<Longrightarrow> \<not> (user_present (walkpgdir pts pg i) \<and> not_accessed (walkpgdir pts pg i)) \<Longrightarrow>
   findpage_pass1 pts pg kb i = findpage_pass1 pts pg kb (i + PGSIZE)"
  by (subst findpage_pass1.simps)
     (auto simp: user_present_def not_accessed_def split: option.splits)

lemma findpage_pass2_end: "\<not> i < kb \<Longrightarrow> findpage_pass2 pts pg kb i = None"
  by (subst findpage_pass2.simps) simp

lemma findpage_pass2_hit:
  "i < kb \<Longrightarrow> walkpgdir pts pg i = Some pte \<Longrightarrow> user_present (Some pte) \<Longrightarrow>
   findpage_pass2 pts pg kb i = Some (i, PTE_ADDR pte)"
  by (subst findpage_pass2.simps) (simp add: user_present_def)

lemma findpage_pass2_step:
  "i < kb \<Longrightarrow> \<not> user_present (walkpgdir pts pg i) \<Longrightarrow>
   findpage_pass2 pts pg kb i = findpage_pass2 pts pg kb (i + PGSIZE)"
  by (subst findpage_pass2.simps) (auto simp: user_present_def split: option.splits)

lemma findpage_sweep_end: "\<not> i < kb \<Longrightarrow> findpage_sweep pts pg kb i = pts"
  by (subst findpage_sweep.simps) simp

lemma findpage_sweep_step:
  "i < kb \<Longrightarrow>
   findpage_sweep pts pg kb i =
     findpage_sweep (case walkpgdir pts pg i of
                       None \<Rightarrow> pts
                     | Some pte \<Rightarrow> if user_present (Some pte)
                                   then set_pte pts pg i (pte AND NOT PTE_A) else pts)
                    pg kb (i + PGSIZE)"
  by (subst findpage_sweep.simps) (auto simp: user_present_def split: option.splits)

text \<open>The first pass from page \<open>n\<close> on: either no page in range is a candidate, or the
  result is the first candidate.\<close>

lemma findpage_pass1_spec:
  "(findpage_pass1 pts pg kb (n * PGSIZE) = None \<and>
      (\<forall>m\<ge>n. m * PGSIZE < kb \<longrightarrow> \<not> (user_present (pts pg m) \<and> not_accessed (pts pg m)))) \<or>
   (\<exists>m\<ge>n. m * PGSIZE < kb \<and> user_present (pts pg m) \<and> not_accessed (pts pg m) \<and>
      (\<forall>j. n \<le> j \<and> j < m \<longrightarrow> \<not> (user_present (pts pg j) \<and> not_accessed (pts pg j))) \<and>
      findpage_pass1 pts pg kb (n * PGSIZE) = Some (m * PGSIZE, PTE_ADDR (the (pts pg m))))"
proof (induction "kb - n * PGSIZE" arbitrary: n rule: less_induct)
  case less
  show ?case
  proof (cases "n * PGSIZE < kb")
    case False
    then have "\<forall>m\<ge>n. \<not> m * PGSIZE < kb"
      using page_beyond by blast
    with findpage_pass1_end [OF False] show ?thesis by simp
  next
    case lt: True
    show ?thesis
    proof (cases "user_present (pts pg n) \<and> not_accessed (pts pg n)")
      case True
      then obtain pte where pte: "pts pg n = Some pte"
        by (auto simp: user_present_def split: option.splits)
      with True lt have "findpage_pass1 pts pg kb (n * PGSIZE) = Some (n * PGSIZE, PTE_ADDR (the (pts pg n)))"
        using findpage_pass1_hit [of "n * PGSIZE" kb pts pg pte] by simp
      with True lt show ?thesis
        by (intro disjI2 exI [of _ n]) auto
    next
      case False
      then have eq: "findpage_pass1 pts pg kb (n * PGSIZE) = findpage_pass1 pts pg kb (Suc n * PGSIZE)"
        using findpage_pass1_step [of "n * PGSIZE" kb pts pg] lt
        unfolding walkpgdir_page page_step by blast
      have "kb - Suc n * PGSIZE < kb - n * PGSIZE" using lt by (simp add: PGSIZE_def)
      note ih = less.hyps [OF this]
      have split: "\<And>j. n \<le> j \<Longrightarrow> j = n \<or> Suc n \<le> j" by linarith
      from ih show ?thesis
      proof
        assume h: "findpage_pass1 pts pg kb (Suc n * PGSIZE) = None \<and>
          (\<forall>m\<ge>Suc n. m * PGSIZE < kb \<longrightarrow> \<not> (user_present (pts pg m) \<and> not_accessed (pts pg m)))"
        have "\<forall>m\<ge>n. m * PGSIZE < kb \<longrightarrow> \<not> (user_present (pts pg m) \<and> not_accessed (pts pg m))"
          using h False split by blast
        with h eq show ?thesis by simp
      next
        assume "\<exists>m\<ge>Suc n. m * PGSIZE < kb \<and> user_present (pts pg m) \<and> not_accessed (pts pg m) \<and>
          (\<forall>j. Suc n \<le> j \<and> j < m \<longrightarrow> \<not> (user_present (pts pg j) \<and> not_accessed (pts pg j))) \<and>
          findpage_pass1 pts pg kb (Suc n * PGSIZE) = Some (m * PGSIZE, PTE_ADDR (the (pts pg m)))"
        then obtain m where m: "Suc n \<le> m" "m * PGSIZE < kb" "user_present (pts pg m)"
          "not_accessed (pts pg m)"
          "\<forall>j. Suc n \<le> j \<and> j < m \<longrightarrow> \<not> (user_present (pts pg j) \<and> not_accessed (pts pg j))"
          "findpage_pass1 pts pg kb (Suc n * PGSIZE) = Some (m * PGSIZE, PTE_ADDR (the (pts pg m)))"
          by blast
        have "\<forall>j. n \<le> j \<and> j < m \<longrightarrow> \<not> (user_present (pts pg j) \<and> not_accessed (pts pg j))"
          using m(5) False split by blast
        moreover have "n \<le> m" using m(1) by simp
        moreover have "findpage_pass1 pts pg kb (n * PGSIZE) = Some (m * PGSIZE, PTE_ADDR (the (pts pg m)))"
          using eq m(6) by (simp only:)
        ultimately show ?thesis using m(2,3,4) by blast
      qed
    qed
  qed
qed

text \<open>The second pass, likewise, for the present user pages.\<close>

lemma findpage_pass2_spec:
  "(findpage_pass2 pts pg kb (n * PGSIZE) = None \<and>
      (\<forall>m\<ge>n. m * PGSIZE < kb \<longrightarrow> \<not> user_present (pts pg m))) \<or>
   (\<exists>m\<ge>n. m * PGSIZE < kb \<and> user_present (pts pg m) \<and>
      (\<forall>j. n \<le> j \<and> j < m \<longrightarrow> \<not> user_present (pts pg j)) \<and>
      findpage_pass2 pts pg kb (n * PGSIZE) = Some (m * PGSIZE, PTE_ADDR (the (pts pg m))))"
proof (induction "kb - n * PGSIZE" arbitrary: n rule: less_induct)
  case less
  show ?case
  proof (cases "n * PGSIZE < kb")
    case False
    then have "\<forall>m\<ge>n. \<not> m * PGSIZE < kb"
      using page_beyond by blast
    with findpage_pass2_end [OF False] show ?thesis by simp
  next
    case lt: True
    show ?thesis
    proof (cases "user_present (pts pg n)")
      case True
      then obtain pte where pte: "pts pg n = Some pte"
        by (auto simp: user_present_def split: option.splits)
      with True lt have "findpage_pass2 pts pg kb (n * PGSIZE) = Some (n * PGSIZE, PTE_ADDR (the (pts pg n)))"
        using findpage_pass2_hit [of "n * PGSIZE" kb pts pg pte] by simp
      with True lt show ?thesis
        by (intro disjI2 exI [of _ n]) auto
    next
      case False
      then have eq: "findpage_pass2 pts pg kb (n * PGSIZE) = findpage_pass2 pts pg kb (Suc n * PGSIZE)"
        using findpage_pass2_step [of "n * PGSIZE" kb pts pg] lt
        unfolding walkpgdir_page page_step by blast
      have "kb - Suc n * PGSIZE < kb - n * PGSIZE" using lt by (simp add: PGSIZE_def)
      note ih = less.hyps [OF this]
      have split: "\<And>j. n \<le> j \<Longrightarrow> j = n \<or> Suc n \<le> j" by linarith
      from ih show ?thesis
      proof
        assume h: "findpage_pass2 pts pg kb (Suc n * PGSIZE) = None \<and>
          (\<forall>m\<ge>Suc n. m * PGSIZE < kb \<longrightarrow> \<not> user_present (pts pg m))"
        have "\<forall>m\<ge>n. m * PGSIZE < kb \<longrightarrow> \<not> user_present (pts pg m)"
          using h False split by blast
        with h eq show ?thesis by simp
      next
        assume "\<exists>m\<ge>Suc n. m * PGSIZE < kb \<and> user_present (pts pg m) \<and>
          (\<forall>j. Suc n \<le> j \<and> j < m \<longrightarrow> \<not> user_present (pts pg j)) \<and>
          findpage_pass2 pts pg kb (Suc n * PGSIZE) = Some (m * PGSIZE, PTE_ADDR (the (pts pg m)))"
        then obtain m where m: "Suc n \<le> m" "m * PGSIZE < kb" "user_present (pts pg m)"
          "\<forall>j. Suc n \<le> j \<and> j < m \<longrightarrow> \<not> user_present (pts pg j)"
          "findpage_pass2 pts pg kb (Suc n * PGSIZE) = Some (m * PGSIZE, PTE_ADDR (the (pts pg m)))"
          by blast
        have "\<forall>j. n \<le> j \<and> j < m \<longrightarrow> \<not> user_present (pts pg j)"
          using m(4) False split by blast
        moreover have "n \<le> m" using m(1) by simp
        moreover have "findpage_pass2 pts pg kb (n * PGSIZE) = Some (m * PGSIZE, PTE_ADDR (the (pts pg m)))"
          using eq m(5) by (simp only:)
        ultimately show ?thesis using m(2,3) by blast
      qed
    qed
  qed
qed

text \<open>The sweep from page \<open>n\<close> on clears the accessed bit of the present user pages in
  range, in the directory \<open>pg\<close>, and leaves every other entry as it is.\<close>

lemma findpage_sweep_one:
  "(case walkpgdir pts pg (n * PGSIZE) of
      None \<Rightarrow> pts
    | Some pte \<Rightarrow> if user_present (Some pte)
                  then set_pte pts pg (n * PGSIZE) (pte AND NOT PTE_A) else pts)
   = pts(pg := (pts pg)(n := clear_A (pts pg n)))"
proof (cases "pts pg n")
  case None
  then have "clear_A (pts pg n) = pts pg n" by (simp add: clear_A_def user_present_def)
  then have "pts(pg := (pts pg)(n := clear_A (pts pg n))) = pts" by simp
  with None show ?thesis by simp
next
  case (Some pte)
  show ?thesis
  proof (cases "user_present (Some pte)")
    case True
    with Some show ?thesis by (simp add: set_pte_page clear_A_def)
  next
    case False
    with Some have "clear_A (pts pg n) = pts pg n" by (simp add: clear_A_def)
    then have "pts(pg := (pts pg)(n := clear_A (pts pg n))) = pts" by simp
    with Some False show ?thesis by simp
  qed
qed

lemma findpage_sweep_spec:
  "findpage_sweep pts pg kb (n * PGSIZE) =
     pts(pg := (\<lambda>m. if n \<le> m \<and> m * PGSIZE < kb then clear_A (pts pg m) else pts pg m))"
proof (induction "kb - n * PGSIZE" arbitrary: n pts rule: less_induct)
  case less
  show ?case
  proof (cases "n * PGSIZE < kb")
    case False
    have nb: "\<And>m. n \<le> m \<Longrightarrow> \<not> m * PGSIZE < kb"
      using page_beyond [OF False] .
    have "(\<lambda>m. if n \<le> m \<and> m * PGSIZE < kb then clear_A (pts pg m) else pts pg m) = pts pg"
      by (intro ext) (simp add: nb cong: conj_cong)
    then have "pts(pg := (\<lambda>m. if n \<le> m \<and> m * PGSIZE < kb then clear_A (pts pg m) else pts pg m)) = pts"
      by (simp only: fun_upd_triv)
    with findpage_sweep_end [OF False, of pts pg] show ?thesis by (simp only:)
  next
    case lt: True
    let ?pts1 = "pts(pg := (pts pg)(n := clear_A (pts pg n)))"
    have eq: "findpage_sweep pts pg kb (n * PGSIZE) = findpage_sweep ?pts1 pg kb (Suc n * PGSIZE)"
      using findpage_sweep_step [OF lt, of pts pg] unfolding findpage_sweep_one page_step .
    have "kb - Suc n * PGSIZE < kb - n * PGSIZE" using lt by (simp add: PGSIZE_def)
    note ih = less.hyps [OF this, of ?pts1]
    have inner: "(\<lambda>m. if Suc n \<le> m \<and> m * PGSIZE < kb then clear_A (?pts1 pg m) else ?pts1 pg m)
        = (\<lambda>m. if n \<le> m \<and> m * PGSIZE < kb then clear_A (pts pg m) else pts pg m)"
    proof (rule ext)
      fix m
      consider "m < n" | "m = n" | "Suc n \<le> m" by linarith
      then show "(if Suc n \<le> m \<and> m * PGSIZE < kb then clear_A (?pts1 pg m) else ?pts1 pg m)
        = (if n \<le> m \<and> m * PGSIZE < kb then clear_A (pts pg m) else pts pg m)"
      proof cases
        case 1 then show ?thesis by simp
      next
        case 2 with lt show ?thesis by simp
      next
        case 3 then show ?thesis by simp
      qed
    qed
    have "findpage_sweep ?pts1 pg kb (Suc n * PGSIZE) =
        ?pts1(pg := (\<lambda>m. if Suc n \<le> m \<and> m * PGSIZE < kb then clear_A (?pts1 pg m) else ?pts1 pg m))"
      by (rule ih)
    also have "\<dots> = ?pts1(pg := (\<lambda>m. if n \<le> m \<and> m * PGSIZE < kb then clear_A (pts pg m) else pts pg m))"
      by (simp only: inner)
    also have "\<dots> = pts(pg := (\<lambda>m. if n \<le> m \<and> m * PGSIZE < kb then clear_A (pts pg m) else pts pg m))"
      by (rule fun_upd_upd)
    finally show ?thesis using eq by (simp only:)
  qed
qed

text \<open>Clearing the accessed bit touches neither the present bit, nor the user bit, nor
  the frame address.\<close>

lemma clear_A_bits:
  "(pte AND NOT PTE_A) AND PTE_P = pte AND PTE_P"
  "(pte AND NOT PTE_A) AND PTE_U = pte AND PTE_U"
  "(pte AND NOT PTE_A) AND PTE_A = 0"
  "PTE_ADDR (pte AND NOT PTE_A) = PTE_ADDR pte"
  by (simp_all add: PTE_A_def PTE_P_def PTE_U_def PTE_ADDR_def and.assoc)

lemma user_present_clear_A [simp]: "user_present (clear_A e) = user_present e"
  by (cases e) (simp_all add: clear_A_def user_present_def clear_A_bits)

lemma not_accessed_clear_A: "user_present e \<Longrightarrow> not_accessed (clear_A e)"
  by (cases e) (simp_all add: clear_A_def not_accessed_def user_present_def clear_A_bits)

lemma PTE_ADDR_clear_A: "PTE_ADDR (the (clear_A e)) = PTE_ADDR (the e)"
  by (cases e) (simp_all add: clear_A_def clear_A_bits)

text \<open>The state after the sweep and the reload of the page-directory register.\<close>

definition findpage_swept :: "kernel \<Rightarrow> nat \<Rightarrow> kernel" where
  "findpage_swept s pg =
     s\<lparr>pagetables := (pagetables s)(pg :=
          (\<lambda>m. if m * PGSIZE < kernbase s then clear_A (pagetables s pg m) else pagetables s pg m)),
       cr3 := cr3 s @ [pg]\<rparr>"

lemma findpage_swept_eq:
  "lcr3 (s\<lparr>pagetables := findpage_sweep (pagetables s) pg (kernbase s) 0\<rparr>) pg = findpage_swept s pg"
  using findpage_sweep_spec [of "pagetables s" pg "kernbase s" 0]
  by (simp add: lcr3_def findpage_swept_def)

lemma findpage_swept_user [simp]:
  "user_present (pagetables (findpage_swept s pg) pg m) = user_present (pagetables s pg m)"
  by (simp add: findpage_swept_def)

lemma findpage_swept_addr:
  "PTE_ADDR (the (pagetables (findpage_swept s pg) pg m)) = PTE_ADDR (the (pagetables s pg m))"
  by (simp add: findpage_swept_def PTE_ADDR_clear_A)

lemma findpage_cases:
  assumes "findpage s pg = (r, s')"
  shows "(\<exists>n. r = Some (n * PGSIZE, PTE_ADDR (the (pagetables s pg n))) \<and> s' = s \<and>
            n * PGSIZE < kernbase s \<and> user_present (pagetables s pg n) \<and>
            not_accessed (pagetables s pg n) \<and>
            (\<forall>j<n. \<not> (user_present (pagetables s pg j) \<and> not_accessed (pagetables s pg j)))) \<or>
         ((\<forall>m. m * PGSIZE < kernbase s \<longrightarrow>
              \<not> (user_present (pagetables s pg m) \<and> not_accessed (pagetables s pg m))) \<and>
          s' = findpage_swept s pg \<and>
          ((r = None \<and> (\<forall>m. m * PGSIZE < kernbase s \<longrightarrow> \<not> user_present (pagetables s pg m))) \<or>
           (\<exists>n. r = Some (n * PGSIZE, PTE_ADDR (the (pagetables s pg n))) \<and>
              n * PGSIZE < kernbase s \<and> user_present (pagetables s pg n) \<and>
              (\<forall>j<n. \<not> user_present (pagetables s pg j)))))"
proof -
  from findpage_pass1_spec [of "pagetables s" pg "kernbase s" 0]
  show ?thesis
  proof
    assume h: "findpage_pass1 (pagetables s) pg (kernbase s) (0 * PGSIZE) = None \<and>
      (\<forall>m\<ge>0. m * PGSIZE < kernbase s \<longrightarrow>
         \<not> (user_present (pagetables s pg m) \<and> not_accessed (pagetables s pg m)))"
    then have p1: "findpage_pass1 (pagetables s) pg (kernbase s) 0 = None" by simp
    from h have none: "\<forall>m. m * PGSIZE < kernbase s \<longrightarrow>
         \<not> (user_present (pagetables s pg m) \<and> not_accessed (pagetables s pg m))" by simp
    let ?s2 = "findpage_swept s pg"
    have kb: "kernbase ?s2 = kernbase s" by (simp add: findpage_swept_def)
    from assms p1 have s': "s' = ?s2"
      and r: "r = findpage_pass2 (pagetables ?s2) pg (kernbase s) 0"
      by (auto simp add: findpage_def Let_def findpage_swept_eq kb)
    from findpage_pass2_spec [of "pagetables ?s2" pg "kernbase s" 0]
    have "(r = None \<and> (\<forall>m. m * PGSIZE < kernbase s \<longrightarrow> \<not> user_present (pagetables s pg m))) \<or>
           (\<exists>n. r = Some (n * PGSIZE, PTE_ADDR (the (pagetables s pg n))) \<and>
              n * PGSIZE < kernbase s \<and> user_present (pagetables s pg n) \<and>
              (\<forall>j<n. \<not> user_present (pagetables s pg j)))"
      unfolding r by (simp add: findpage_swept_addr) blast
    with none s' show ?thesis by blast
  next
    assume "\<exists>m\<ge>0. m * PGSIZE < kernbase s \<and> user_present (pagetables s pg m) \<and>
      not_accessed (pagetables s pg m) \<and>
      (\<forall>j. 0 \<le> j \<and> j < m \<longrightarrow>
         \<not> (user_present (pagetables s pg j) \<and> not_accessed (pagetables s pg j))) \<and>
      findpage_pass1 (pagetables s) pg (kernbase s) (0 * PGSIZE) =
        Some (m * PGSIZE, PTE_ADDR (the (pagetables s pg m)))"
    then obtain n where n: "n * PGSIZE < kernbase s" "user_present (pagetables s pg n)"
      "not_accessed (pagetables s pg n)"
      "\<forall>j<n. \<not> (user_present (pagetables s pg j) \<and> not_accessed (pagetables s pg j))"
      "findpage_pass1 (pagetables s) pg (kernbase s) 0 =
        Some (n * PGSIZE, PTE_ADDR (the (pagetables s pg n)))"
      by auto
    from assms n(5) have "r = Some (n * PGSIZE, PTE_ADDR (the (pagetables s pg n)))" "s' = s"
      by (auto simp add: findpage_def)
    with n show ?thesis by blast
  qed
qed

lemma findpage_swept_cleared:
  assumes "m * PGSIZE < kernbase s" "user_present (pagetables s pg m)"
  shows "(\<exists>pte. pagetables s pg m = Some pte \<and>
            pagetables (findpage_swept s pg) pg m = Some (pte AND NOT PTE_A)) \<and>
         not_accessed (pagetables (findpage_swept s pg) pg m) \<and>
         user_present (pagetables (findpage_swept s pg) pg m)"
proof -
  from assms(2) obtain pte where pte: "pagetables s pg m = Some pte"
    by (auto simp: user_present_def split: option.splits)
  have sw: "pagetables (findpage_swept s pg) pg m = clear_A (pagetables s pg m)"
    using assms(1) by (simp add: findpage_swept_def)
  have "pagetables (findpage_swept s pg) pg m = Some (pte AND NOT PTE_A)"
    using assms(2) pte by (simp add: sw clear_A_def)
  moreover have "not_accessed (pagetables (findpage_swept s pg) pg m)"
    unfolding sw using assms(2) by (rule not_accessed_clear_A)
  moreover have "user_present (pagetables (findpage_swept s pg) pg m)"
    using assms(2) by simp
  ultimately show ?thesis using pte by blast
qed

lemma findpage_swept_other:
  "\<not> (m * PGSIZE < kernbase s \<and> user_present (pagetables s pg m)) \<Longrightarrow>
   pagetables (findpage_swept s pg) pg m = pagetables s pg m"
  by (auto simp: findpage_swept_def clear_A_def)

lemma findpage_swept_other_dir:
  "pg' \<noteq> pg \<Longrightarrow> pagetables (findpage_swept s pg) pg' = pagetables s pg'"
  by (simp add: findpage_swept_def)

text \<open>
  C8. \<open>findpage\<close> looks at the pages \<open>n * PGSIZE\<close> below KERNBASE in ascending order (the
  model's \<open>kernbase\<close>). Either it returns the first page that is present, user-accessible
  and has the accessed bit clear, together with its frame address, and leaves the state
  untouched. Or no such page is in range: then the state afterwards is the swept one, in
  which every present user page in range has the accessed bit cleared, every other entry
  (not present, not user-accessible, at or above KERNBASE, or of another directory) is as
  before, and the page-directory register has been reloaded; and the result is the first
  present user-accessible page in range, or no page when there is none.
\<close>

theorem findpage_second_chance:
  "findpage s pg = (r, s') \<Longrightarrow>
     ((\<exists>n. r = Some (n * PGSIZE, PTE_ADDR (the (pagetables s pg n))) \<and> s' = s \<and>
            n * PGSIZE < kernbase s \<and> user_present (pagetables s pg n) \<and>
            not_accessed (pagetables s pg n) \<and>
            (\<forall>j<n. \<not> (user_present (pagetables s pg j) \<and> not_accessed (pagetables s pg j)))) \<or>
      ((\<forall>m. m * PGSIZE < kernbase s \<longrightarrow>
              \<not> (user_present (pagetables s pg m) \<and> not_accessed (pagetables s pg m))) \<and>
       s' = findpage_swept s pg \<and>
       ((r = None \<and> (\<forall>m. m * PGSIZE < kernbase s \<longrightarrow> \<not> user_present (pagetables s pg m))) \<or>
        (\<exists>n. r = Some (n * PGSIZE, PTE_ADDR (the (pagetables s pg n))) \<and>
              n * PGSIZE < kernbase s \<and> user_present (pagetables s pg n) \<and>
              (\<forall>j<n. \<not> user_present (pagetables s pg j)))))) \<and>
     cr3 (findpage_swept s pg) = cr3 s @ [pg] \<and>
     (\<forall>m. m * PGSIZE < kernbase s \<and> user_present (pagetables s pg m) \<longrightarrow>
          (\<exists>pte. pagetables s pg m = Some pte \<and>
            pagetables (findpage_swept s pg) pg m = Some (pte AND NOT PTE_A)) \<and>
          not_accessed (pagetables (findpage_swept s pg) pg m) \<and>
          user_present (pagetables (findpage_swept s pg) pg m)) \<and>
     (\<forall>m. \<not> (m * PGSIZE < kernbase s \<and> user_present (pagetables s pg m)) \<longrightarrow>
          pagetables (findpage_swept s pg) pg m = pagetables s pg m) \<and>
     (\<forall>pg'. pg' \<noteq> pg \<longrightarrow> pagetables (findpage_swept s pg) pg' = pagetables s pg')"
proof -
  assume a: "findpage s pg = (r, s')"
  have "cr3 (findpage_swept s pg) = cr3 s @ [pg]" by (simp add: findpage_swept_def)
  with findpage_cases [OF a] findpage_swept_cleared [of _ s pg] findpage_swept_other [of _ s pg]
    findpage_swept_other_dir [of _ pg s]
  show ?thesis by (intro conjI allI impI) blast+
qed

text \<open>Scenario S3: directory 1 maps the ten user pages 3 to 12, all accessed, a kernel
  page at 0 and, above the sixteen pages below KERNBASE, page 20.\<close>

definition s3_kernel :: kernel where
  "s3_kernel = boot\<lparr>kernbase := 16 * 4096,
     pagetables := (\<lambda>pg m. if pg = 1 \<and> 3 \<le> m \<and> m \<le> 12
                              then Some (word_of_nat ((100 + m) * 4096 + 0x27))
                            else if pg = 1 \<and> m = 0 then Some 0x1023
                            else if pg = 1 \<and> m = 20 then Some 0x2027
                            else None)\<rparr>"

lemmas findpage_eval =
  findpage_def findpage_pass1.simps findpage_pass2.simps findpage_sweep.simps
  walkpgdir_def set_pte_def PGSIZE_def PTE_P_def PTE_U_def PTE_A_def PTE_ADDR_def Let_def lcr3_def

theorem findpage_second_chance_witness:
  "findpage s3_kernel 1 = (fst (findpage s3_kernel 1), snd (findpage s3_kernel 1)) \<and>
   fst (findpage s3_kernel 1) = Some (3 * 4096, 0x67000) \<and>
   snd (findpage s3_kernel 1) = findpage_swept s3_kernel 1 \<and>
   pagetables (snd (findpage s3_kernel 1)) 1 3 = Some 0x67007 \<and>
   pagetables (snd (findpage s3_kernel 1)) 1 4 = Some 0x68007 \<and>
   pagetables (snd (findpage s3_kernel 1)) 1 5 = Some 0x69007 \<and>
   pagetables (snd (findpage s3_kernel 1)) 1 6 = Some 0x6A007 \<and>
   pagetables (snd (findpage s3_kernel 1)) 1 7 = Some 0x6B007 \<and>
   pagetables (snd (findpage s3_kernel 1)) 1 8 = Some 0x6C007 \<and>
   pagetables (snd (findpage s3_kernel 1)) 1 9 = Some 0x6D007 \<and>
   pagetables (snd (findpage s3_kernel 1)) 1 10 = Some 0x6E007 \<and>
   pagetables (snd (findpage s3_kernel 1)) 1 11 = Some 0x6F007 \<and>
   pagetables (snd (findpage s3_kernel 1)) 1 12 = Some 0x70007 \<and>
   pagetables (snd (findpage s3_kernel 1)) 1 0 = Some 0x1023 \<and>
   pagetables (snd (findpage s3_kernel 1)) 1 20 = Some 0x2027 \<and>
   cr3 (snd (findpage s3_kernel 1)) = [1]"
proof -
  have h: "findpage s3_kernel 1 = (fst (findpage s3_kernel 1), snd (findpage s3_kernel 1))"
    by simp
  have r: "fst (findpage s3_kernel 1) = Some (3 * 4096, 0x67000)"
    by (simp add: findpage_eval s3_kernel_def boot_def)
  have a3: "not_accessed (pagetables s3_kernel 1 3) = False"
    by (simp add: not_accessed_def s3_kernel_def boot_def PTE_A_def)
  have sw: "snd (findpage s3_kernel 1) = findpage_swept s3_kernel 1"
    using findpage_second_chance [OF h] r a3 by (auto simp: PGSIZE_def)
  have pt: "pagetables (snd (findpage s3_kernel 1)) 1 3 = Some 0x67007"
    "pagetables (snd (findpage s3_kernel 1)) 1 4 = Some 0x68007"
    "pagetables (snd (findpage s3_kernel 1)) 1 5 = Some 0x69007"
    "pagetables (snd (findpage s3_kernel 1)) 1 6 = Some 0x6A007"
    "pagetables (snd (findpage s3_kernel 1)) 1 7 = Some 0x6B007"
    "pagetables (snd (findpage s3_kernel 1)) 1 8 = Some 0x6C007"
    "pagetables (snd (findpage s3_kernel 1)) 1 9 = Some 0x6D007"
    "pagetables (snd (findpage s3_kernel 1)) 1 10 = Some 0x6E007"
    "pagetables (snd (findpage s3_kernel 1)) 1 11 = Some 0x6F007"
    "pagetables (snd (findpage s3_kernel 1)) 1 12 = Some 0x70007"
    "pagetables (snd (findpage s3_kernel 1)) 1 0 = Some 0x1023"
    "pagetables (snd (findpage s3_kernel 1)) 1 20 = Some 0x2027"
    "cr3 (snd (findpage s3_kernel 1)) = [1]"
    by (simp_all add: findpage_eval s3_kernel_def boot_def)
  from h r sw pt show ?thesis by (simp only: simp_thms)
qed

section \<open>The encoding of a swapped entry\<close>

lemma fff_mask: "(0xFFF :: 32 word) = mask 12"
  by (simp add: mask_eq_exp_minus_1)

lemma slot_bit_lt:
  fixes k :: int
  assumes "0 \<le> k" "k < 800" "bit k n"
  shows "n < 10"
proof (rule ccontr)
  assume "\<not> n < 10"
  then have "10 \<le> n" by simp
  then have "(2::int) ^ 10 \<le> 2 ^ n" by (rule power_increasing) simp
  with assms have "k < 2 ^ n" by simp
  with assms(1) have "\<not> bit k n"
    by (simp add: bit_iff_odd)
  with assms(3) show False by simp
qed

lemma enc_low:
  "(push_bit 12 w OR (pte AND NOT PTE_P AND 0xFFF)) AND 0xFFF = (pte AND 0xFFF) AND NOT PTE_P"
  for w pte :: "32 word"
  unfolding fff_mask PTE_P_def
  by (rule bit_eqI) (auto simp: bit_simps)

lemma enc_high:
  assumes "0 \<le> k" "k < 800"
  shows "drop_bit 12 (push_bit 12 (word_of_int k) OR (pte AND NOT PTE_P AND 0xFFF))
           = (word_of_int k :: 32 word)"
  unfolding fff_mask PTE_P_def
  by (rule bit_eqI) (auto simp: bit_simps dest: slot_bit_lt [OF assms])

lemma enc_addr:
  assumes "0 \<le> k" "k < 800"
  shows "PTE_ADDR (push_bit 12 (word_of_int k) OR (pte AND NOT PTE_P AND 0xFFF))
           = push_bit 12 (word_of_int k :: 32 word)"
  unfolding fff_mask PTE_P_def PTE_ADDR_def
  by (rule bit_eqI) (auto simp: bit_simps dest: slot_bit_lt [OF assms])

lemma enc_not_present:
  "(push_bit 12 w OR (pte AND NOT PTE_P AND 0xFFF)) AND PTE_P = 0" for w pte :: "32 word"
  unfolding fff_mask PTE_P_def
  by (rule bit_eqI) (auto simp: bit_simps)

lemma drop_push_slot:
  assumes "0 \<le> k" "k < 800"
  shows "drop_bit 12 (push_bit 12 (word_of_int k :: 32 word)) = word_of_int k"
  by (rule bit_eqI) (auto simp: bit_simps dest: slot_bit_lt [OF assms])

lemma sint_slot:
  assumes "0 \<le> k" "k < 800"
  shows "sint (word_of_int k :: 32 word) = k"
proof -
  have "signed_take_bit 31 k = k"
    using assms by (intro signed_take_bit_int_eq_self) simp_all
  then show ?thesis by (simp add: signed_of_int)
qed

lemma pte_slot_enc:
  assumes "0 \<le> k" "k < 800"
  shows "pte_slot (push_bit 12 (word_of_int k) OR (pte AND NOT PTE_P AND 0xFFF)) = k"
  unfolding pte_slot_def enc_addr [OF assms] drop_push_slot [OF assms]
  by (rule sint_slot [OF assms])

lemma enc_nonzero:
  assumes "0 < k" "k < 800"
  shows "push_bit 12 (word_of_int k) OR (pte AND NOT PTE_P AND 0xFFF) \<noteq> (0 :: 32 word)"
proof
  assume z: "push_bit 12 (word_of_int k) OR (pte AND NOT PTE_P AND 0xFFF) = (0 :: 32 word)"
  have "pte_slot (push_bit 12 (word_of_int k) OR (pte AND NOT PTE_P AND 0xFFF)) = k"
    using assms by (intro pte_slot_enc) simp_all
  with z have "pte_slot 0 = k" by simp
  with assms show False by (simp add: pte_slot_def PTE_ADDR_def)
qed

section \<open>The loop of swapout\<close>

lemma PTE_ADDR_low: "PTE_ADDR pte AND 0xFFF = 0"
  unfolding PTE_ADDR_def fff_mask
  by (rule bit_eqI) (auto simp: bit_simps)

text \<open>A property of the state that every call in the body of the loop keeps is kept by
  the loop. The frame that the loop frees is the one \<open>findpage\<close> returned, a page-aligned
  address.\<close>

lemma swapout_loop_keeps:
  assumes fp: "\<And>s pg r s'. P s \<Longrightarrow> findpage s pg = (r, s') \<Longrightarrow> P s'"
    and so: "\<And>s pg va pa r s'. P s \<Longrightarrow> swappageout s pg va pa = (r, s') \<Longrightarrow> P s'"
    and fin: "\<And>s v pa. P s \<Longrightarrow> pa AND 0xFFF = 0 \<Longrightarrow>
        P (kfree (s\<lparr>ptable := (ptable s)[v := (ptable s ! v)\<lparr>rss := wrap32 (rss (ptable s ! v) - 1)\<rparr>]\<rparr>) pa)"
  shows "P s \<Longrightarrow> P (swapout_loop s v swapped attempts)"
proof (induction s v swapped attempts rule: swapout_loop.induct)
  case (1 s v swapped attempts)
  show ?case
  proof (cases "swapped < npages_to_swap s \<and> attempts < wrap32 (npages_to_swap s * 2)")
    case False
    then have "swapout_loop s v swapped attempts = s"
      by (subst swapout_loop.simps) auto
    with "1.prems" show ?thesis by simp
  next
    case go: True
    obtain r s1 where f: "findpage s (pgdir (ptable s ! v)) = (r, s1)" by fastforce
    have al: "\<And>va pa. r = Some (va, pa) \<Longrightarrow> pa AND 0xFFF = 0"
      using findpage_cases [OF f] by (auto simp: PTE_ADDR_low)
    have p1: "P s1" using fp [OF "1.prems" f] .
    show ?thesis
    proof (cases r)
      case None
      with go f have "swapout_loop s v swapped attempts = s1"
        by (subst swapout_loop.simps) auto
      with p1 show ?thesis by simp
    next
      case (Some vp)
      obtain va pa where vp: "vp = (va, pa)" by fastforce
      show ?thesis
      proof (cases "pa = 0")
        case True
        with go f Some vp have "swapout_loop s v swapped attempts = s1"
          by (subst swapout_loop.simps) auto
        with p1 show ?thesis by simp
      next
        case nz: False
        obtain r2 s2 where w: "swappageout s1 (pgdir (ptable s1 ! v)) va pa = (r2, s2)" by fastforce
        have p2: "P s2" using so [OF p1 w] .
        show ?thesis
        proof (cases "r2 = 0")
          case True
          let ?s4 = "kfree (s2\<lparr>ptable := (ptable s2)[v := (ptable s2 ! v)\<lparr>rss := wrap32 (rss (ptable s2 ! v) - 1)\<rparr>]\<rparr>) pa"
          have "pa AND 0xFFF = 0" using al Some vp by simp
          then have "P ?s4" using fin [OF p2] by simp
          have "swapout_loop s v swapped attempts =
              swapout_loop ?s4 v (wrap32 (swapped + 1)) (wrap32 (attempts + 1))"
            using go f Some vp nz w True by (subst swapout_loop.simps) (auto simp: Let_def)
          with "1.IH"(1) [OF go f [symmetric] Some vp [symmetric] nz w [symmetric] True refl refl \<open>P ?s4\<close>]
          show ?thesis by simp
        next
          case False
          have "swapout_loop s v swapped attempts = swapout_loop s2 v swapped (wrap32 (attempts + 1))"
            using go f Some vp nz w False by (subst swapout_loop.simps) auto
          with "1.IH"(2) [OF go f [symmetric] Some vp [symmetric] nz w [symmetric] False p2]
          show ?thesis by simp
        qed
      qed
    qed
  qed
qed

section \<open>The adaptive policy\<close>

text \<open>The fields that eviction never writes: the controller's variables, memory, the
  current process, KERNBASE and the console.\<close>

definition same_ctrl :: "kernel \<Rightarrow> kernel \<Rightarrow> bool" where
  "same_ctrl s s' =
     (threshold s' = threshold s \<and> npages_to_swap s' = npages_to_swap s \<and>
      alpha s' = alpha s \<and> beta s' = beta s \<and> limit s' = limit s \<and>
      physmem s' = physmem s \<and> curproc s' = curproc s \<and> kernbase s' = kernbase s \<and>
      console s' = console s)"

lemma findpage_same_ctrl: "same_ctrl s0 s \<Longrightarrow> findpage s pg = (r, s') \<Longrightarrow> same_ctrl s0 s'"
  by (auto simp: same_ctrl_def findpage_def lcr3_def Let_def split: option.splits)

lemma findslot_same_ctrl: "same_ctrl s0 s \<Longrightarrow> findslot s = (r, s') \<Longrightarrow> same_ctrl s0 s'"
  by (auto simp: same_ctrl_def findslot_def split: prod.splits)

lemma swappageout_same_ctrl:
  "same_ctrl s0 s \<Longrightarrow> swappageout s pg va pa = (r, s') \<Longrightarrow> same_ctrl s0 s'"
  by (auto simp: swappageout_def Let_def lcr3_def same_ctrl_def findslot_def
           split: prod.splits option.splits if_splits)

lemma swapout_same_ctrl: "same_ctrl s (swapout s)"
proof (cases "findproc s")
  case None
  then show ?thesis by (simp add: swapout_def same_ctrl_def)
next
  case (Some v)
  have "same_ctrl s (swapout_loop s v 0 0)"
  proof (rule swapout_loop_keeps [where P = "same_ctrl s"])
    show "same_ctrl s s" by (simp add: same_ctrl_def)
  next
    fix sa pg r s' assume "same_ctrl s sa" "findpage sa pg = (r, s')"
    then show "same_ctrl s s'" by (rule findpage_same_ctrl)
  next
    fix sa pg va pa r s' assume "same_ctrl s sa" "swappageout sa pg va pa = (r, s')"
    then show "same_ctrl s s'" by (rule swappageout_same_ctrl)
  next
    fix sa v pa assume "same_ctrl s sa"
    then show "same_ctrl s (kfree (sa\<lparr>ptable := (ptable sa)[v := (ptable sa ! v)\<lparr>rss := wrap32 (rss (ptable sa ! v) - 1)\<rparr>]\<rparr>) pa)"
      by (simp add: same_ctrl_def kfree_def)
  qed
  with Some show ?thesis by (simp add: swapout_def)
qed

lemma checkAswap_threshold:
  assumes "countpages s \<le> threshold s"
  shows "threshold (checkAswap s) =
           max 1 (wrap32 (threshold s - wrap32 (threshold s * beta s) sdiv 100))"
  using assms swapout_same_ctrl [of "cprintf s (SwapTraceMsg (threshold s) (npages_to_swap s))"]
  by (simp add: checkAswap_def Let_def same_ctrl_def cprintf_def max_def)

lemma checkAswap_npages:
  assumes "countpages s \<le> threshold s"
  shows "npages_to_swap (checkAswap s) =
           min (limit s) (wrap32 (npages_to_swap s + wrap32 (npages_to_swap s * alpha s) sdiv 100))"
  using assms swapout_same_ctrl [of "cprintf s (SwapTraceMsg (threshold s) (npages_to_swap s))"]
  by (simp add: checkAswap_def Let_def same_ctrl_def cprintf_def min_def)

lemma checkAswap_params:
  "alpha (checkAswap s) = alpha s \<and> beta (checkAswap s) = beta s \<and> limit (checkAswap s) = limit s"
  using swapout_same_ctrl [of "cprintf s (SwapTraceMsg (threshold s) (npages_to_swap s))"]
  by (simp add: checkAswap_def Let_def same_ctrl_def cprintf_def)

lemma sdiv_nonneg: "0 \<le> (a::int) \<Longrightarrow> a sdiv 100 = a div 100"
  by (cases "a = 0") (simp_all add: signed_divide_int_def)

text \<open>Where nothing overflows, the update of threshold is the exact one.\<close>

lemma threshold_update_exact:
  assumes "1 \<le> t" "t < 2 ^ 31" "0 \<le> b" "t * b < 2 ^ 31"
  shows "wrap32 (t - wrap32 (t * b) sdiv 100) = t - (t * b) div 100"
    and "0 \<le> (t * b) div 100"
proof -
  have nn: "0 \<le> t * b" using assms by simp
  then have w: "wrap32 (t * b) = t * b" using assms(4) by (intro wrap32_id) simp_all
  have d: "(t * b) sdiv 100 = (t * b) div 100" using nn by (rule sdiv_nonneg)
  show d0: "0 \<le> (t * b) div 100" using nn by simp
  have d1: "(t * b) div 100 \<le> t * b" using nn zdiv_mono2 [of "t * b" 1 100] by simp
  have "- (2 ^ 31) \<le> t - (t * b) div 100" using assms(1,4) d1 by simp
  moreover have "t - (t * b) div 100 < 2 ^ 31" using assms(2) d0 by simp
  ultimately have "wrap32 (t - (t * b) div 100) = t - (t * b) div 100" by (rule wrap32_id)
  then show "wrap32 (t - wrap32 (t * b) sdiv 100) = t - (t * b) div 100"
    by (simp add: w d)
qed

text \<open>Likewise for the number of pages to swap.\<close>

lemma npages_update_exact:
  assumes "0 \<le> n" "0 \<le> a" "n * a < 2 ^ 31" "n + (n * a) div 100 < 2 ^ 31"
  shows "wrap32 (n + wrap32 (n * a) sdiv 100) = n + (n * a) div 100"
    and "0 \<le> (n * a) div 100"
proof -
  have nn: "0 \<le> n * a" using assms by simp
  then have w: "wrap32 (n * a) = n * a" using assms(3) by (intro wrap32_id) simp_all
  have d: "(n * a) sdiv 100 = (n * a) div 100" using nn by (rule sdiv_nonneg)
  show d0: "0 \<le> (n * a) div 100" using nn by simp
  have "- (2 ^ 31) \<le> n + (n * a) div 100" using assms(1) d0 by simp
  then have "wrap32 (n + (n * a) div 100) = n + (n * a) div 100"
    using assms(4) by (rule wrap32_id)
  then show "wrap32 (n + wrap32 (n * a) sdiv 100) = n + (n * a) div 100"
    by (simp add: w d)
qed

lemma checkAswap_adapts_parts:
  assumes "countpages s \<le> threshold s"
  shows "threshold (checkAswap s) =
           max 1 (wrap32 (threshold s - wrap32 (threshold s * beta s) sdiv 100))"
    and "npages_to_swap (checkAswap s) =
           min (limit s) (wrap32 (npages_to_swap s + wrap32 (npages_to_swap s * alpha s) sdiv 100))"
    and "alpha (checkAswap s) = alpha s \<and> beta (checkAswap s) = beta s \<and> limit (checkAswap s) = limit s"
    and "1 \<le> threshold s \<and> threshold s < 2 ^ 31 \<and> 0 \<le> beta s \<and> threshold s * beta s < 2 ^ 31 \<longrightarrow>
           threshold (checkAswap s) = max 1 (threshold s - (threshold s * beta s) div 100) \<and>
           threshold (checkAswap s) \<le> threshold s \<and>
           (threshold (checkAswap s) < threshold s \<longleftrightarrow>
              100 \<le> threshold s * beta s \<and> 1 < threshold s)"
    and "0 \<le> npages_to_swap s \<and> npages_to_swap s \<le> limit s \<and> 0 \<le> alpha s \<and>
         npages_to_swap s * alpha s < 2 ^ 31 \<and>
         npages_to_swap s + (npages_to_swap s * alpha s) div 100 < 2 ^ 31 \<longrightarrow>
           npages_to_swap (checkAswap s) =
             min (limit s) (npages_to_swap s + (npages_to_swap s * alpha s) div 100) \<and>
           npages_to_swap s \<le> npages_to_swap (checkAswap s) \<and>
           (npages_to_swap s < npages_to_swap (checkAswap s) \<longleftrightarrow>
              100 \<le> npages_to_swap s * alpha s \<and> npages_to_swap s < limit s)"
proof -
  show t: "threshold (checkAswap s) =
           max 1 (wrap32 (threshold s - wrap32 (threshold s * beta s) sdiv 100))"
    using assms by (rule checkAswap_threshold)
  show n: "npages_to_swap (checkAswap s) =
           min (limit s) (wrap32 (npages_to_swap s + wrap32 (npages_to_swap s * alpha s) sdiv 100))"
    using assms by (rule checkAswap_npages)
  show "alpha (checkAswap s) = alpha s \<and> beta (checkAswap s) = beta s \<and> limit (checkAswap s) = limit s"
    by (rule checkAswap_params)
  show "1 \<le> threshold s \<and> threshold s < 2 ^ 31 \<and> 0 \<le> beta s \<and> threshold s * beta s < 2 ^ 31 \<longrightarrow>
           threshold (checkAswap s) = max 1 (threshold s - (threshold s * beta s) div 100) \<and>
           threshold (checkAswap s) \<le> threshold s \<and>
           (threshold (checkAswap s) < threshold s \<longleftrightarrow>
              100 \<le> threshold s * beta s \<and> 1 < threshold s)"
  proof
    assume h: "1 \<le> threshold s \<and> threshold s < 2 ^ 31 \<and> 0 \<le> beta s \<and> threshold s * beta s < 2 ^ 31"
    then have e: "wrap32 (threshold s - wrap32 (threshold s * beta s) sdiv 100) =
        threshold s - (threshold s * beta s) div 100"
      and d0: "0 \<le> (threshold s * beta s) div 100"
      by (simp_all add: threshold_update_exact)
    have d1: "1 \<le> (threshold s * beta s) div 100 \<longleftrightarrow> 100 \<le> threshold s * beta s"
      by linarith
    show "threshold (checkAswap s) = max 1 (threshold s - (threshold s * beta s) div 100) \<and>
           threshold (checkAswap s) \<le> threshold s \<and>
           (threshold (checkAswap s) < threshold s \<longleftrightarrow>
              100 \<le> threshold s * beta s \<and> 1 < threshold s)"
      unfolding t e using h d0 d1 by (auto simp: max_def)
  qed
  show "0 \<le> npages_to_swap s \<and> npages_to_swap s \<le> limit s \<and> 0 \<le> alpha s \<and>
         npages_to_swap s * alpha s < 2 ^ 31 \<and>
         npages_to_swap s + (npages_to_swap s * alpha s) div 100 < 2 ^ 31 \<longrightarrow>
           npages_to_swap (checkAswap s) =
             min (limit s) (npages_to_swap s + (npages_to_swap s * alpha s) div 100) \<and>
           npages_to_swap s \<le> npages_to_swap (checkAswap s) \<and>
           (npages_to_swap s < npages_to_swap (checkAswap s) \<longleftrightarrow>
              100 \<le> npages_to_swap s * alpha s \<and> npages_to_swap s < limit s)"
  proof
    assume h: "0 \<le> npages_to_swap s \<and> npages_to_swap s \<le> limit s \<and> 0 \<le> alpha s \<and>
         npages_to_swap s * alpha s < 2 ^ 31 \<and>
         npages_to_swap s + (npages_to_swap s * alpha s) div 100 < 2 ^ 31"
    then have e: "wrap32 (npages_to_swap s + wrap32 (npages_to_swap s * alpha s) sdiv 100) =
        npages_to_swap s + (npages_to_swap s * alpha s) div 100"
      and d0: "0 \<le> (npages_to_swap s * alpha s) div 100"
      by (simp_all add: npages_update_exact)
    have d1: "1 \<le> (npages_to_swap s * alpha s) div 100 \<longleftrightarrow> 100 \<le> npages_to_swap s * alpha s"
      by linarith
    show "npages_to_swap (checkAswap s) =
             min (limit s) (npages_to_swap s + (npages_to_swap s * alpha s) div 100) \<and>
           npages_to_swap s \<le> npages_to_swap (checkAswap s) \<and>
           (npages_to_swap s < npages_to_swap (checkAswap s) \<longleftrightarrow>
              100 \<le> npages_to_swap s * alpha s \<and> npages_to_swap s < limit s)"
      unfolding n e using h d0 d1 by (auto simp: min_def)
  qed
qed

text \<open>
  C1, as amended. In every call to \<open>checkAswap\<close> with the free-frame count at or below
  \<open>threshold\<close>, whatever \<open>swapout\<close> evicted, the update is
  \<open>threshold := max(1, threshold - threshold * beta / 100)\<close> and
  \<open>npages_to_swap := min(limit, npages_to_swap + npages_to_swap * alpha / 100)\<close> in C's
  32-bit arithmetic with truncating division; \<open>alpha\<close>, \<open>beta\<close> and \<open>limit\<close> stay.
  Where nothing overflows, the division is the floor and the result the exact one:
  with \<open>1 \<le> threshold < 2^31\<close>, \<open>beta \<ge> 0\<close> and \<open>threshold * beta < 2^31\<close>, threshold
  never grows, and it falls exactly when \<open>threshold * beta \<ge> 100\<close> and \<open>threshold > 1\<close>;
  with \<open>0 \<le> npages_to_swap \<le> limit\<close>, \<open>alpha \<ge> 0\<close>, \<open>npages_to_swap * alpha < 2^31\<close>
  and \<open>npages_to_swap + npages_to_swap * alpha / 100 < 2^31\<close>, npages_to_swap never
  falls, and it grows exactly when \<open>npages_to_swap * alpha \<ge> 100\<close> and
  \<open>npages_to_swap < limit\<close>.
\<close>

theorem checkAswap_adapts:
  "countpages s \<le> threshold s \<Longrightarrow>
     (threshold (checkAswap s) =
        max 1 (wrap32 (threshold s - wrap32 (threshold s * beta s) sdiv 100))) \<and>
     (npages_to_swap (checkAswap s) =
        min (limit s) (wrap32 (npages_to_swap s + wrap32 (npages_to_swap s * alpha s) sdiv 100))) \<and>
     (alpha (checkAswap s) = alpha s \<and> beta (checkAswap s) = beta s \<and> limit (checkAswap s) = limit s) \<and>
     (1 \<le> threshold s \<and> threshold s < 2 ^ 31 \<and> 0 \<le> beta s \<and> threshold s * beta s < 2 ^ 31 \<longrightarrow>
           threshold (checkAswap s) = max 1 (threshold s - (threshold s * beta s) div 100) \<and>
           threshold (checkAswap s) \<le> threshold s \<and>
           (threshold (checkAswap s) < threshold s \<longleftrightarrow>
              100 \<le> threshold s * beta s \<and> 1 < threshold s)) \<and>
     (0 \<le> npages_to_swap s \<and> npages_to_swap s \<le> limit s \<and> 0 \<le> alpha s \<and>
         npages_to_swap s * alpha s < 2 ^ 31 \<and>
         npages_to_swap s + (npages_to_swap s * alpha s) div 100 < 2 ^ 31 \<longrightarrow>
           npages_to_swap (checkAswap s) =
             min (limit s) (npages_to_swap s + (npages_to_swap s * alpha s) div 100) \<and>
           npages_to_swap s \<le> npages_to_swap (checkAswap s) \<and>
           (npages_to_swap s < npages_to_swap (checkAswap s) \<longleftrightarrow>
              100 \<le> npages_to_swap s * alpha s \<and> npages_to_swap s < limit s))"
  using checkAswap_adapts_parts [of s] by blast

lemma swapout_no_process: "ptable s = [] \<Longrightarrow> swapout s = s"
  by (simp add: swapout_def findproc_def findproc_loop.simps)

lemma checkAswap_no_process:
  "ptable s = [] \<Longrightarrow> freelist s = [] \<Longrightarrow> 0 \<le> threshold s \<Longrightarrow>
   checkAswap s =
     s\<lparr>threshold := max 1 (wrap32 (threshold s - wrap32 (threshold s * beta s) sdiv 100)),
       npages_to_swap := min (limit s)
          (wrap32 (npages_to_swap s + wrap32 (npages_to_swap s * alpha s) sdiv 100)),
       console := console s @ [SwapTraceMsg (threshold s) (npages_to_swap s)]\<rparr>"
  by (simp add: checkAswap_def countpages_def wrap32_def [of 0] Let_def cprintf_def
                swapout_no_process max_def min_def)

text \<open>With the values of scenario S1 (threshold 100, four pages to swap, no free frame)
  one call gives threshold 90 and five pages.\<close>

theorem checkAswap_adapts_witness:
  "countpages boot \<le> threshold boot \<and>
   1 \<le> threshold boot \<and> threshold boot < 2 ^ 31 \<and> 0 \<le> beta boot \<and>
   threshold boot * beta boot < 2 ^ 31 \<and>
   0 \<le> npages_to_swap boot \<and> npages_to_swap boot \<le> limit boot \<and> 0 \<le> alpha boot \<and>
   npages_to_swap boot * alpha boot < 2 ^ 31 \<and>
   npages_to_swap boot + (npages_to_swap boot * alpha boot) div 100 < 2 ^ 31 \<and>
   threshold (checkAswap boot) = 90 \<and> npages_to_swap (checkAswap boot) = 5 \<and>
   threshold (checkAswap boot) < threshold boot \<and>
   npages_to_swap boot < npages_to_swap (checkAswap boot)"
proof -
  have h: "countpages boot \<le> threshold boot"
    by (simp add: boot_def countpages_def wrap32_def)
  have v: "threshold boot = 100" "beta boot = 10" "npages_to_swap boot = 4" "alpha boot = 25"
    "limit boot = 100"
    by (simp_all add: boot_def)
  from checkAswap_adapts [OF h] h show ?thesis
    by (simp add: v wrap32_def signed_divide_int_def)
qed

text \<open>
  C1 as stated fails: with the default \<open>beta = 10\<close> a call at threshold 9 triggers
  eviction and leaves threshold at 9, above its floor of 1.
\<close>

theorem checkAswap_threshold_stuck:
  "countpages (boot\<lparr>threshold := 9\<rparr>) \<le> threshold (boot\<lparr>threshold := 9\<rparr>) \<and>
   threshold (checkAswap (boot\<lparr>threshold := 9\<rparr>)) = threshold (boot\<lparr>threshold := 9\<rparr>) \<and>
   threshold (boot\<lparr>threshold := 9\<rparr>) = 9 \<and> beta (boot\<lparr>threshold := 9\<rparr>) = 10"
proof -
  have p: "ptable (boot\<lparr>threshold := 9\<rparr>) = []" "freelist (boot\<lparr>threshold := 9\<rparr>) = []"
    "0 \<le> threshold (boot\<lparr>threshold := 9\<rparr>)"
    by (simp_all add: boot_def)
  have b: "beta boot = 10" by (simp add: boot_def)
  show ?thesis
    by (simp add: checkAswap_no_process [OF p] countpages_def p b signed_divide_int_def wrap32_def)
qed

text \<open>The bounds of the amended claim are needed. At threshold 30000000 with \<open>beta = 100\<close>
  the product does not fit 32 bits, and the call raises threshold to 42949672.\<close>

lemma checkAswap_overflow_example:
  "threshold (checkAswap (boot\<lparr>threshold := 30000000, beta := 100\<rparr>)) = 42949672"
proof -
  have p: "ptable (boot\<lparr>threshold := 30000000, beta := 100\<rparr>) = []"
    "freelist (boot\<lparr>threshold := 30000000, beta := 100\<rparr>) = []"
    "0 \<le> threshold (boot\<lparr>threshold := 30000000, beta := 100\<rparr>)"
    by (simp_all add: boot_def)
  show ?thesis
    by (simp add: checkAswap_no_process [OF p] signed_divide_int_def wrap32_def)
qed

section \<open>Eviction of one page\<close>

text \<open>The state after a successful \<open>swappageout\<close> that took slot \<open>k\<close> for the entry
  \<open>pte\<close>.\<close>

definition swapped_out :: "kernel \<Rightarrow> nat \<Rightarrow> nat \<Rightarrow> 32 word \<Rightarrow> int \<Rightarrow> pte_t \<Rightarrow> kernel" where
  "swapped_out s pg va pa k pte =
     s\<lparr>slots := (slots s)(k := \<lparr>page_perm = pte AND 0xFFF, is_free = 0\<rparr>),
       disk := swappageout_write (physmem s) (disk s) (2 + nat k * 8) pa,
       pagetables := set_pte (pagetables s) pg va
                       (push_bit 12 (word_of_int k) OR (pte AND NOT PTE_P AND 0xFFF)),
       cr3 := cr3 s @ [pg]\<rparr>"

lemma swap_slot_updates:
  "sl\<lparr>is_free := a, page_perm := b\<rparr> = \<lparr>page_perm = b, is_free = a\<rparr>"
  "sl\<lparr>page_perm := b, is_free := a\<rparr> = \<lparr>page_perm = b, is_free = a\<rparr>"
  for sl :: swap_slot
  by (cases sl, simp)+

lemma swappageout_cases:
  assumes "swappageout s pg va pa = (r, s')"
  shows "(r = -1 \<and> s' = s \<and> (\<forall>j. 0 \<le> j \<and> j < 800 \<longrightarrow> is_free (slots s j) = 0)) \<or>
    (\<exists>k. 0 \<le> k \<and> k < 800 \<and> is_free (slots s k) \<noteq> 0 \<and>
          (\<forall>j. 0 \<le> j \<and> j < k \<longrightarrow> is_free (slots s j) = 0) \<and>
          ((r = -1 \<and> s' = s\<lparr>slots := (slots s)(k := (slots s k)\<lparr>is_free := 0\<rparr>)\<rparr> \<and>
            (walkpgdir (pagetables s) pg va = None \<or>
             (\<exists>pte. walkpgdir (pagetables s) pg va = Some pte \<and> pte AND PTE_P = 0))) \<or>
           (\<exists>pte. r = 0 \<and> walkpgdir (pagetables s) pg va = Some pte \<and> pte AND PTE_P \<noteq> 0 \<and>
              s' = swapped_out s pg va pa k pte)))"
proof -
  obtain k s1 where fs: "findslot s = (k, s1)" by fastforce
  from findslot_cases [OF fs] show ?thesis
  proof
    assume h: "k = -1 \<and> s1 = s \<and> (\<forall>j. 0 \<le> j \<and> j < 800 \<longrightarrow> is_free (slots s j) = 0)"
    with assms fs have "r = -1 \<and> s' = s" by (simp add: swappageout_def)
    with h show ?thesis by blast
  next
    assume h: "0 \<le> k \<and> k < 800 \<and> is_free (slots s k) \<noteq> 0 \<and>
      (\<forall>j. 0 \<le> j \<and> j < k \<longrightarrow> is_free (slots s j) = 0) \<and>
      s1 = s\<lparr>slots := (slots s)(k := (slots s k)\<lparr>is_free := 0\<rparr>)\<rparr>"
    then have pt: "pagetables s1 = pagetables s" by simp
    have k0: "\<not> k < 0" using h by simp
    show ?thesis
    proof (cases "walkpgdir (pagetables s) pg va")
      case None
      with assms fs k0 pt have "r = -1 \<and> s' = s1" by (simp add: swappageout_def Let_def)
      with h None show ?thesis by blast
    next
      case (Some pte)
      show ?thesis
      proof (cases "pte AND PTE_P = 0")
        case True
        with assms fs k0 pt Some have "r = -1 \<and> s' = s1" by (simp add: swappageout_def Let_def)
        with h Some True show ?thesis by blast
      next
        case False
        have "s' = swapped_out s pg va pa k pte \<and> r = 0"
          using assms fs k0 pt Some False h
          by (auto simp: swappageout_def Let_def swapped_out_def lcr3_def swap_slot_updates)
        with h Some False show ?thesis by blast
      qed
    qed
  qed
qed

text \<open>
  C4. After every successful \<open>swappageout\<close> of a page whose leaf entry was \<open>pte\<close>, with
  \<open>F = pte AND 0xFFF\<close> its low twelve bits, the entry is \<open>(k << 12) | (F & ~PTE_P)\<close>
  for the slot \<open>k\<close> that \<open>findslot\<close> allocated (the lowest free one, now marked used):
  shifted right by 12 it is \<open>k\<close>, its low twelve bits are \<open>F\<close> without the present bit,
  and the slot index read back from it is \<open>k\<close>.
\<close>

theorem swappageout_encoding:
  "swappageout s pg va pa = (0, s') \<Longrightarrow> walkpgdir (pagetables s) pg va = Some pte \<Longrightarrow>
     (\<exists>k e. 0 \<le> k \<and> k < 800 \<and> is_free (slots s k) \<noteq> 0 \<and> is_free (slots s' k) = 0 \<and>
        (\<forall>j. 0 \<le> j \<and> j < k \<longrightarrow> is_free (slots s j) = 0) \<and>
        walkpgdir (pagetables s') pg va = Some e \<and>
        e = push_bit 12 (word_of_int k) OR ((pte AND 0xFFF) AND NOT PTE_P) \<and>
        drop_bit 12 e = word_of_int k \<and>
        e AND 0xFFF = (pte AND 0xFFF) AND NOT PTE_P \<and>
        e AND PTE_P = 0 \<and>
        pte_slot e = k)"
proof -
  assume a: "swappageout s pg va pa = (0, s')" and w: "walkpgdir (pagetables s) pg va = Some pte"
  from swappageout_cases [OF a] w obtain k where k: "0 \<le> k" "k < 800" "is_free (slots s k) \<noteq> 0"
    "\<forall>j. 0 \<le> j \<and> j < k \<longrightarrow> is_free (slots s j) = 0"
    and s': "s' = swapped_out s pg va pa k pte"
    by auto
  let ?e = "push_bit 12 (word_of_int k) OR (pte AND NOT PTE_P AND 0xFFF)"
  have comm: "pte AND NOT PTE_P AND 0xFFF = (pte AND 0xFFF) AND NOT PTE_P"
    by (simp add: and.commute and.left_commute)
  have "walkpgdir (pagetables s') pg va = Some ?e"
    by (simp add: s' swapped_out_def walkpgdir_def set_pte_def)
  moreover have "is_free (slots s' k) = 0" by (simp add: s' swapped_out_def)
  moreover have "drop_bit 12 ?e = word_of_int k" using k(1,2) by (rule enc_high)
  moreover have "?e AND 0xFFF = (pte AND 0xFFF) AND NOT PTE_P" by (rule enc_low)
  moreover have "?e AND PTE_P = 0" by (rule enc_not_present)
  moreover have "pte_slot ?e = k" using k(1,2) by (rule pte_slot_enc)
  ultimately show ?thesis using k unfolding comm by blast
qed

text \<open>A state with one resident user page: page 3 of directory 1, in the frame at
  0x67000, with the flags P, W, U and A; slot 0 is in use.\<close>

definition one_page :: kernel where
  "one_page = boot\<lparr>slots := (slots boot)(0 := used_slot 7),
                   pagetables := (\<lambda>pg m. if pg = 1 \<and> m = 3 then Some 0x67027 else None),
                   physmem := (\<lambda>a. word_of_nat a)\<rparr>"

lemmas swappageout_eval =
  swappageout_def findslot_def findslot_loop.simps walkpgdir_def set_pte_def PGSIZE_def PTE_P_def
  Let_def lcr3_def

theorem swappageout_encoding_witness:
  "swappageout one_page 1 (3 * 4096) 0x67000 = (0, snd (swappageout one_page 1 (3 * 4096) 0x67000)) \<and>
   walkpgdir (pagetables one_page) 1 (3 * 4096) = Some 0x67027 \<and>
   walkpgdir (pagetables (snd (swappageout one_page 1 (3 * 4096) 0x67000))) 1 (3 * 4096) = Some 0x1026 \<and>
   is_free (slots (snd (swappageout one_page 1 (3 * 4096) 0x67000)) 1) = 0"
proof -
  have r: "fst (swappageout one_page 1 (3 * 4096) 0x67000) = 0"
    by (simp add: swappageout_eval one_page_def boot_def used_slot_def free_slot_def)
  have h: "swappageout one_page 1 (3 * 4096) 0x67000 = (0, snd (swappageout one_page 1 (3 * 4096) 0x67000))"
    using r by (metis prod.collapse)
  have w: "walkpgdir (pagetables one_page) 1 (3 * 4096) = Some 0x67027"
    by (simp add: one_page_def walkpgdir_def PGSIZE_def)
  have e: "walkpgdir (pagetables (snd (swappageout one_page 1 (3 * 4096) 0x67000))) 1 (3 * 4096) = Some 0x1026"
    "is_free (slots (snd (swappageout one_page 1 (3 * 4096) 0x67000)) 1) = 0"
    by (simp_all add: swappageout_eval one_page_def boot_def used_slot_def free_slot_def)
  from swappageout_encoding [OF h w] h w e show ?thesis by (simp only: simp_thms)
qed

text \<open>
  C2. The claim does not hold of the code: when \<open>findslot\<close> has allocated a slot and the
  leaf entry is missing or not present, \<open>swappageout\<close> returns -1 and the slot stays marked
  used. From the boot state, where every slot is free and nothing is mapped, the call
  fails and slot 0 is used afterwards; likewise for an entry that is there but not
  present.
\<close>

theorem swappageout_leaks_slot:
  "walkpgdir (pagetables boot) 1 0 = None \<and>
   is_free (slots boot 0) = 1 \<and>
   fst (swappageout boot 1 0 0) = -1 \<and>
   is_free (slots (snd (swappageout boot 1 0 0)) 0) = 0 \<and>
   walkpgdir (pagetables (boot\<lparr>pagetables := (\<lambda>pg m. Some 0x6)\<rparr>)) 1 0 = Some 0x6 \<and>
   fst (swappageout (boot\<lparr>pagetables := (\<lambda>pg m. Some 0x6)\<rparr>) 1 0 0) = -1 \<and>
   is_free (slots (snd (swappageout (boot\<lparr>pagetables := (\<lambda>pg m. Some 0x6)\<rparr>) 1 0 0)) 0) = 0"
  by (simp add: swappageout_eval boot_def free_slot_def)

text \<open>In general: a call that fails after taking slot \<open>k\<close> leaves \<open>k\<close> used, although
  it was free before.\<close>

lemma swappageout_failure_keeps_slot:
  assumes "swappageout s pg va pa = (r, s')" "findslot s = (k, s1)" "0 \<le> k"
    and "walkpgdir (pagetables s) pg va = None \<or>
         (\<exists>pte. walkpgdir (pagetables s) pg va = Some pte \<and> pte AND PTE_P = 0)"
  shows "r = -1 \<and> s' = s1 \<and> is_free (slots s k) \<noteq> 0 \<and> is_free (slots s' k) = 0"
proof -
  from findslot_cases [OF assms(2)] assms(3)
  have k: "is_free (slots s k) \<noteq> 0" "s1 = s\<lparr>slots := (slots s)(k := (slots s k)\<lparr>is_free := 0\<rparr>)\<rparr>"
    by auto
  then have pt: "pagetables s1 = pagetables s" by simp
  have "r = -1 \<and> s' = s1"
    using assms pt by (auto simp: swappageout_def Let_def split: option.splits)
  with k show ?thesis by simp
qed

section \<open>Fault-in: the early returns\<close>

text \<open>
  C9. When the leaf entry for the faulting address is present, \<open>swappage_in\<close> returns 0
  and the state is unchanged. When the entry is not present and the slot index read from
  it is outside 0 to 799, or names a slot marked free, \<open>swappage_in\<close> returns -1 and the
  state is unchanged.
\<close>

theorem swappage_in_early:
  "(walkpgdir (pagetables s) pg (unat (PGROUNDDOWN va)) = Some pte \<and> pte AND PTE_P \<noteq> 0 \<longrightarrow>
      swappage_in s pg va = (0, s)) \<and>
   (walkpgdir (pagetables s) pg (unat (PGROUNDDOWN va)) = Some pte \<and> pte AND PTE_P = 0 \<and>
      (pte_slot pte < 0 \<or> 800 \<le> pte_slot pte \<or> is_free (slots s (pte_slot pte)) \<noteq> 0) \<longrightarrow>
      swappage_in s pg va = (-1, s))"
  by (auto simp: swappage_in_def Let_def)

lemmas swappage_in_eval =
  walkpgdir_def PGROUNDDOWN_def PGSIZE_def PTE_P_def pte_slot_def PTE_ADDR_def

theorem swappage_in_early_witness:
  "walkpgdir (pagetables one_page) 1 (unat (PGROUNDDOWN 0x3abc)) = Some 0x67027 \<and>
   0x67027 AND PTE_P \<noteq> 0 \<and>
   swappage_in one_page 1 0x3abc = (0, one_page) \<and>
   walkpgdir (pagetables (boot\<lparr>pagetables := (\<lambda>pg m. Some 0x5000)\<rparr>)) 1 (unat (PGROUNDDOWN 0x3abc))
     = Some 0x5000 \<and>
   0x5000 AND PTE_P = 0 \<and> pte_slot 0x5000 = 5 \<and>
   is_free (slots (boot\<lparr>pagetables := (\<lambda>pg m. Some 0x5000)\<rparr>) 5) = 1 \<and>
   swappage_in (boot\<lparr>pagetables := (\<lambda>pg m. Some 0x5000)\<rparr>) 1 0x3abc
     = (-1, boot\<lparr>pagetables := (\<lambda>pg m. Some 0x5000)\<rparr>) \<and>
   walkpgdir (pagetables (boot\<lparr>pagetables := (\<lambda>pg m. Some 0x320006)\<rparr>)) 1 (unat (PGROUNDDOWN 0x3abc))
     = Some 0x320006 \<and>
   0x320006 AND PTE_P = 0 \<and> pte_slot 0x320006 = 800 \<and>
   swappage_in (boot\<lparr>pagetables := (\<lambda>pg m. Some 0x320006)\<rparr>) 1 0x3abc
     = (-1, boot\<lparr>pagetables := (\<lambda>pg m. Some 0x320006)\<rparr>)"
proof -
  have a: "walkpgdir (pagetables one_page) 1 (unat (PGROUNDDOWN 0x3abc)) = Some 0x67027"
    "(0x67027 :: 32 word) AND PTE_P \<noteq> 0"
    by (simp_all add: swappage_in_eval one_page_def)
  have b: "walkpgdir (pagetables (boot\<lparr>pagetables := (\<lambda>pg m. Some 0x5000)\<rparr>)) 1 (unat (PGROUNDDOWN 0x3abc))
     = Some 0x5000"
    "(0x5000 :: 32 word) AND PTE_P = 0" "pte_slot 0x5000 = 5"
    "is_free (slots (boot\<lparr>pagetables := (\<lambda>pg m. Some 0x5000)\<rparr>) 5) = 1"
    by (simp_all add: swappage_in_eval boot_def free_slot_def)
  have c: "walkpgdir (pagetables (boot\<lparr>pagetables := (\<lambda>pg m. Some 0x320006)\<rparr>)) 1 (unat (PGROUNDDOWN 0x3abc))
     = Some 0x320006"
    "(0x320006 :: 32 word) AND PTE_P = 0" "pte_slot 0x320006 = 800"
    by (simp_all add: swappage_in_eval)
  from swappage_in_early [of one_page 1 "0x3abc" "0x67027"]
    swappage_in_early [of "boot\<lparr>pagetables := (\<lambda>pg m. Some 0x5000)\<rparr>" 1 "0x3abc" "0x5000"]
    swappage_in_early [of "boot\<lparr>pagetables := (\<lambda>pg m. Some 0x320006)\<rparr>" 1 "0x3abc" "0x320006"]
    a b c
  show ?thesis by simp
qed

section \<open>Exit cleanup\<close>

text \<open>A swapped entry is not present and not zero. \<open>released pts pg kb n k\<close> says that
  some page from \<open>n\<close> on, below \<open>kb\<close>, of directory \<open>pg\<close> holds a swapped entry that
  names slot \<open>k\<close>.\<close>

definition swapped_entry :: "pte_t option \<Rightarrow> bool" where
  "swapped_entry e = (case e of None \<Rightarrow> False | Some pte \<Rightarrow> pte AND PTE_P = 0 \<and> pte \<noteq> 0)"

definition released :: "pagetables_t \<Rightarrow> nat \<Rightarrow> nat \<Rightarrow> nat \<Rightarrow> int \<Rightarrow> bool" where
  "released pts pg kb n k =
     (\<exists>m\<ge>n. m * PGSIZE < kb \<and> swapped_entry (pts pg m) \<and> pte_slot (the (pts pg m)) = k)"

lemma released_end:
  assumes "\<not> n * PGSIZE < kb"
  shows "\<not> released pts pg kb n k"
proof
  assume "released pts pg kb n k"
  then obtain m where "n \<le> m" "m * PGSIZE < kb"
    unfolding released_def by blast
  with page_beyond [OF assms, of m] show False by simp
qed

lemma released_step:
  "released pts pg kb n k \<longleftrightarrow>
     (n * PGSIZE < kb \<and> swapped_entry (pts pg n) \<and> pte_slot (the (pts pg n)) = k) \<or>
     released pts pg kb (Suc n) k"
proof
  assume "released pts pg kb n k"
  then obtain m where m: "n \<le> m" "m * PGSIZE < kb" "swapped_entry (pts pg m)"
    "pte_slot (the (pts pg m)) = k"
    unfolding released_def by blast
  show "(n * PGSIZE < kb \<and> swapped_entry (pts pg n) \<and> pte_slot (the (pts pg n)) = k) \<or>
     released pts pg kb (Suc n) k"
  proof (cases "m = n")
    case True
    with m show ?thesis by simp
  next
    case False
    with m(1) have "Suc n \<le> m" by simp
    with m(2,3,4) have "released pts pg kb (Suc n) k" unfolding released_def by blast
    then show ?thesis by simp
  qed
next
  assume "(n * PGSIZE < kb \<and> swapped_entry (pts pg n) \<and> pte_slot (the (pts pg n)) = k) \<or>
     released pts pg kb (Suc n) k"
  then show "released pts pg kb n k"
  proof
    assume "n * PGSIZE < kb \<and> swapped_entry (pts pg n) \<and> pte_slot (the (pts pg n)) = k"
    then show ?thesis unfolding released_def by (intro exI [of _ n]) simp
  next
    assume "released pts pg kb (Suc n) k"
    then obtain m where m: "Suc n \<le> m" "m * PGSIZE < kb" "swapped_entry (pts pg m)"
      "pte_slot (the (pts pg m)) = k"
      unfolding released_def by blast
    then show ?thesis unfolding released_def by (intro exI [of _ m]) simp
  qed
qed

text \<open>What one turn of the loop of \<open>swapFree\<close> does at page \<open>n\<close>.\<close>

definition swapFree_page :: "kernel \<Rightarrow> nat \<Rightarrow> nat \<Rightarrow> kernel" where
  "swapFree_page s pg n =
     (if swapped_entry (pagetables s pg n) \<and> 0 \<le> pte_slot (the (pagetables s pg n)) \<and>
         pte_slot (the (pagetables s pg n)) < 800
      then freeslot s (pte_slot (the (pagetables s pg n))) else s)"

lemma swapFree_loop_end: "\<not> i < kernbase s \<Longrightarrow> swapFree_loop s pg i = s"
  by (subst swapFree_loop.simps) simp

lemma swapFree_loop_step:
  "n * PGSIZE < kernbase s \<Longrightarrow>
   swapFree_loop s pg (n * PGSIZE) = swapFree_loop (swapFree_page s pg n) pg (Suc n * PGSIZE)"
proof -
  assume lt: "n * PGSIZE < kernbase s"
  have u: "swapFree_loop s pg (n * PGSIZE) =
     (case pagetables s pg n of
        None \<Rightarrow> swapFree_loop s pg (Suc n * PGSIZE)
      | Some pte \<Rightarrow>
          if pte AND PTE_P = 0 \<and> pte \<noteq> 0
          then (if pte_slot pte \<ge> 0 \<and> pte_slot pte < 800
                then swapFree_loop (freeslot s (pte_slot pte)) pg (Suc n * PGSIZE)
                else swapFree_loop s pg (Suc n * PGSIZE))
          else swapFree_loop s pg (Suc n * PGSIZE))"
    using lt by (subst swapFree_loop.simps) (simp only: if_True walkpgdir_page page_step Let_def)
  show ?thesis
  proof (cases "pagetables s pg n")
    case None
    then show ?thesis unfolding u by (simp add: swapFree_page_def swapped_entry_def)
  next
    case (Some pte)
    then show ?thesis unfolding u by (simp add: swapFree_page_def swapped_entry_def)
  qed
qed

lemma swapFree_page_fields:
  "kernbase (swapFree_page s pg n) = kernbase s"
  "pagetables (swapFree_page s pg n) = pagetables s"
  by (simp_all add: swapFree_page_def freeslot_def)

lemma swapFree_page_slots:
  "slots (swapFree_page s pg n) k =
     (if 0 \<le> k \<and> k < 800 \<and> swapped_entry (pagetables s pg n) \<and> pte_slot (the (pagetables s pg n)) = k
      then \<lparr>page_perm = 0, is_free = 1\<rparr> else slots s k)"
  by (auto simp: swapFree_page_def freeslot_def swap_slot_updates)

lemma swapFree_page_rest: "swapFree_page s pg n = s\<lparr>slots := slots (swapFree_page s pg n)\<rparr>"
  by (simp add: swapFree_page_def freeslot_def)

lemma swapFree_loop_spec:
  "swapFree_loop s pg (n * PGSIZE) =
     s\<lparr>slots := (\<lambda>k. if 0 \<le> k \<and> k < 800 \<and> released (pagetables s) pg (kernbase s) n k
                     then \<lparr>page_perm = 0, is_free = 1\<rparr> else slots s k)\<rparr>"
proof (induction "kernbase s - n * PGSIZE" arbitrary: n s rule: less_induct)
  case less
  show ?case
  proof (cases "n * PGSIZE < kernbase s")
    case False
    then have "(\<lambda>k. if 0 \<le> k \<and> k < 800 \<and> released (pagetables s) pg (kernbase s) n k
                     then \<lparr>page_perm = 0, is_free = 1\<rparr> else slots s k) = slots s"
      by (simp add: released_end)
    with swapFree_loop_end [OF False] show ?thesis by simp
  next
    case lt: True
    let ?s1 = "swapFree_page s pg n"
    have "kernbase ?s1 - Suc n * PGSIZE < kernbase s - n * PGSIZE"
      using lt by (simp add: swapFree_page_fields PGSIZE_def)
    note ih = less.hyps [OF this]
    have f: "(\<lambda>k. if 0 \<le> k \<and> k < 800 \<and> released (pagetables s) pg (kernbase s) (Suc n) k
                     then \<lparr>page_perm = 0, is_free = 1\<rparr> else slots ?s1 k)
           = (\<lambda>k. if 0 \<le> k \<and> k < 800 \<and> released (pagetables s) pg (kernbase s) n k
                     then \<lparr>page_perm = 0, is_free = 1\<rparr> else slots s k)"
    proof (rule ext)
      fix k
      show "(if 0 \<le> k \<and> k < 800 \<and> released (pagetables s) pg (kernbase s) (Suc n) k
                     then \<lparr>page_perm = 0, is_free = 1\<rparr> else slots ?s1 k)
           = (if 0 \<le> k \<and> k < 800 \<and> released (pagetables s) pg (kernbase s) n k
                     then \<lparr>page_perm = 0, is_free = 1\<rparr> else slots s k)"
        using lt released_step [of "pagetables s" pg "kernbase s" n k]
        by (auto simp: swapFree_page_slots)
    qed
    have "swapFree_loop s pg (n * PGSIZE) = swapFree_loop ?s1 pg (Suc n * PGSIZE)"
      using lt by (rule swapFree_loop_step)
    also have "\<dots> = ?s1\<lparr>slots := (\<lambda>k. if 0 \<le> k \<and> k < 800 \<and> released (pagetables s) pg (kernbase s) (Suc n) k
                     then \<lparr>page_perm = 0, is_free = 1\<rparr> else slots ?s1 k)\<rparr>"
      using ih by (simp add: swapFree_page_fields)
    also have "\<dots> = ?s1\<lparr>slots := (\<lambda>k. if 0 \<le> k \<and> k < 800 \<and> released (pagetables s) pg (kernbase s) n k
                     then \<lparr>page_perm = 0, is_free = 1\<rparr> else slots s k)\<rparr>"
      by (simp only: f)
    also have "\<dots> = s\<lparr>slots := (\<lambda>k. if 0 \<le> k \<and> k < 800 \<and> released (pagetables s) pg (kernbase s) n k
                     then \<lparr>page_perm = 0, is_free = 1\<rparr> else slots s k)\<rparr>"
      by (subst swapFree_page_rest) simp
    finally show ?thesis .
  qed
qed

lemma swapFree_eq:
  "swapFree s p =
     s\<lparr>slots := (\<lambda>k. if 0 \<le> k \<and> k < 800 \<and>
                        (\<exists>i. p = Some i \<and> pgdir (ptable s ! i) \<noteq> 0 \<and>
                             released (pagetables s) (pgdir (ptable s ! i)) (kernbase s) 0 k)
                     then \<lparr>page_perm = 0, is_free = 1\<rparr> else slots s k)\<rparr> \<and>
   pagetables (swapFree s p) = pagetables s"
proof (cases p)
  case None
  then show ?thesis by (simp add: swapFree_def)
next
  case (Some i)
  show ?thesis
  proof (cases "pgdir (ptable s ! i) = 0")
    case True
    with Some show ?thesis by (simp add: swapFree_def)
  next
    case False
    with Some have "swapFree s p = swapFree_loop s (pgdir (ptable s ! i)) (0 * PGSIZE)"
      by (simp add: swapFree_def)
    then have "swapFree s p =
      s\<lparr>slots := (\<lambda>k. if 0 \<le> k \<and> k < 800 \<and>
                      released (pagetables s) (pgdir (ptable s ! i)) (kernbase s) 0 k
                     then \<lparr>page_perm = 0, is_free = 1\<rparr> else slots s k)\<rparr>"
      by (simp only: swapFree_loop_spec)
    then show ?thesis using Some False by simp
  qed
qed

text \<open>
  C3, as amended. For a process with a page directory, \<open>swapFree\<close> changes nothing but
  the slot table: every slot from 0 to 799 that a swapped (not present, not zero) entry
  of the process below KERNBASE names is free afterwards with no permissions, and every
  other slot is as before. The page-table entries are left as they were. For the null
  process or a null page directory nothing changes.
\<close>

theorem swapFree_releases:
  "swapFree s p =
     s\<lparr>slots := (\<lambda>k. if 0 \<le> k \<and> k < 800 \<and>
                        (\<exists>i. p = Some i \<and> pgdir (ptable s ! i) \<noteq> 0 \<and>
                             released (pagetables s) (pgdir (ptable s ! i)) (kernbase s) 0 k)
                     then \<lparr>page_perm = 0, is_free = 1\<rparr> else slots s k)\<rparr> \<and>
   pagetables (swapFree s p) = pagetables s"
  by (rule swapFree_eq)

text \<open>Scenario S6: process 0, with directory 1, holds three swapped entries, at pages 3,
  4 and 5, in the slots 10, 11 and 12.\<close>

definition s6_kernel :: kernel where
  "s6_kernel = boot\<lparr>kernbase := 16 * 4096,
     slots := (slots boot)(10 := used_slot 7, 11 := used_slot 7, 12 := used_slot 7),
     ptable := [\<lparr>state = ZOMBIE, pid = 3, rss = 0, pgdir = 1\<rparr>],
     pagetables := (\<lambda>pg m. if pg = 1 \<and> m = 3 then Some 0xA006
                            else if pg = 1 \<and> m = 4 then Some 0xB006
                            else if pg = 1 \<and> m = 5 then Some 0xC006
                            else None)\<rparr>"

lemmas swapFree_eval =
  swapFree_def swapFree_loop.simps walkpgdir_def PGSIZE_def PTE_P_def pte_slot_def PTE_ADDR_def
  freeslot_def Let_def

theorem swapFree_releases_witness:
  "is_free (slots s6_kernel 10) = 0 \<and> is_free (slots s6_kernel 11) = 0 \<and>
   is_free (slots s6_kernel 12) = 0 \<and>
   is_free (slots (swapFree s6_kernel (Some 0)) 10) = 1 \<and>
   is_free (slots (swapFree s6_kernel (Some 0)) 11) = 1 \<and>
   is_free (slots (swapFree s6_kernel (Some 0)) 12) = 1 \<and>
   pagetables (swapFree s6_kernel (Some 0)) = pagetables s6_kernel"
proof -
  have "is_free (slots s6_kernel 10) = 0 \<and> is_free (slots s6_kernel 11) = 0 \<and>
        is_free (slots s6_kernel 12) = 0"
    by (simp add: s6_kernel_def used_slot_def)
  moreover have "is_free (slots (swapFree s6_kernel (Some 0)) 10) = 1 \<and>
   is_free (slots (swapFree s6_kernel (Some 0)) 11) = 1 \<and>
   is_free (slots (swapFree s6_kernel (Some 0)) 12) = 1"
    by (simp add: swapFree_eval s6_kernel_def boot_def used_slot_def)
  ultimately show ?thesis using swapFree_releases [of s6_kernel "Some 0"] by simp
qed

text \<open>
  C3 as stated fails: after the cleanup of scenario S6 the three slots are free, but the
  three entries are what they were, not zero.
\<close>

theorem swapFree_keeps_entries:
  "is_free (slots (swapFree s6_kernel (Some 0)) 10) = 1 \<and>
   is_free (slots (swapFree s6_kernel (Some 0)) 11) = 1 \<and>
   is_free (slots (swapFree s6_kernel (Some 0)) 12) = 1 \<and>
   pagetables (swapFree s6_kernel (Some 0)) 1 3 = Some 0xA006 \<and>
   pagetables (swapFree s6_kernel (Some 0)) 1 4 = Some 0xB006 \<and>
   pagetables (swapFree s6_kernel (Some 0)) 1 5 = Some 0xC006"
  by (simp add: swapFree_eval s6_kernel_def boot_def used_slot_def)

section \<open>What the controller keeps\<close>

text \<open>A property kept by the calls in the loop of \<open>swapout\<close> and by the writes of the
  controller's variables and of the console is kept by \<open>swapout\<close> and \<open>checkAswap\<close>.\<close>

lemma swapout_keeps:
  assumes fp: "\<And>s pg r s'. P s \<Longrightarrow> findpage s pg = (r, s') \<Longrightarrow> P s'"
    and so: "\<And>s pg va pa r s'. P s \<Longrightarrow> swappageout s pg va pa = (r, s') \<Longrightarrow> P s'"
    and fin: "\<And>s v pa. P s \<Longrightarrow> pa AND 0xFFF = 0 \<Longrightarrow>
        P (kfree (s\<lparr>ptable := (ptable s)[v := (ptable s ! v)\<lparr>rss := wrap32 (rss (ptable s ! v) - 1)\<rparr>]\<rparr>) pa)"
    and p: "P s"
  shows "P (swapout s)"
proof (cases "findproc s")
  case None
  with p show ?thesis by (simp add: swapout_def)
next
  case (Some v)
  have "P (swapout_loop s v 0 0)"
    using fp so fin p by (rule swapout_loop_keeps [where P = P])
  with Some show ?thesis by (simp add: swapout_def)
qed

lemma checkAswap_keeps:
  assumes fp: "\<And>s pg r s'. P s \<Longrightarrow> findpage s pg = (r, s') \<Longrightarrow> P s'"
    and so: "\<And>s pg va pa r s'. P s \<Longrightarrow> swappageout s pg va pa = (r, s') \<Longrightarrow> P s'"
    and fin: "\<And>s v pa. P s \<Longrightarrow> pa AND 0xFFF = 0 \<Longrightarrow>
        P (kfree (s\<lparr>ptable := (ptable s)[v := (ptable s ! v)\<lparr>rss := wrap32 (rss (ptable s ! v) - 1)\<rparr>]\<rparr>) pa)"
    and ctl: "\<And>s t n c. P s \<Longrightarrow> P (s\<lparr>threshold := t, npages_to_swap := n, console := c\<rparr>)"
    and p: "P s"
  shows "P (checkAswap s)"
proof (cases "countpages s \<le> threshold s")
  case False
  with p show ?thesis by (simp add: checkAswap_def)
next
  case True
  let ?s1 = "cprintf s (SwapTraceMsg (threshold s) (npages_to_swap s))"
  let ?s2 = "swapout ?s1"
  have "P ?s1"
    using ctl [OF p, where t = "threshold s" and n = "npages_to_swap s"
                 and c = "console s @ [SwapTraceMsg (threshold s) (npages_to_swap s)]"]
    by (simp add: cprintf_def)
  then have p2: "P ?s2" using fp so fin by (intro swapout_keeps [where P = P])
  have "checkAswap s =
      ?s2\<lparr>threshold := max 1 (wrap32 (threshold ?s2 - wrap32 (threshold ?s2 * beta ?s2) sdiv 100)),
          npages_to_swap := min (limit ?s2)
             (wrap32 (npages_to_swap ?s2 + wrap32 (npages_to_swap ?s2 * alpha ?s2) sdiv 100)),
          console := console ?s2\<rparr>"
    using True by (auto simp: checkAswap_def Let_def max_def min_def)
  then show ?thesis
    using ctl [OF p2, where t = "max 1 (wrap32 (threshold ?s2 - wrap32 (threshold ?s2 * beta ?s2) sdiv 100))"
            and n = "min (limit ?s2)
               (wrap32 (npages_to_swap ?s2 + wrap32 (npages_to_swap ?s2 * alpha ?s2) sdiv 100))"
            and c = "console ?s2"]
    by simp
qed

section \<open>The slot table: free slots have no permissions\<close>

definition slots_inv :: "kernel \<Rightarrow> bool" where
  "slots_inv s =
     (\<forall>i. 0 \<le> i \<and> i < 800 \<and> is_free (slots s i) \<noteq> 0 \<longrightarrow> page_perm (slots s i) = 0)"

lemma swapInit_loop_spec:
  "0 \<le> i \<Longrightarrow>
   swapInit_loop sl i j = (if i \<le> j \<and> j < 800 then \<lparr>page_perm = 0, is_free = 1\<rparr> else sl j)"
proof (induction sl i rule: swapInit_loop.induct)
  case (1 sl i)
  show ?case
  proof (cases "i < 800")
    case False
    then show ?thesis by (subst swapInit_loop.simps) auto
  next
    case True
    have u: "swapInit_loop sl i =
        swapInit_loop (sl(i := (sl i)\<lparr>is_free := 1, page_perm := 0\<rparr>)) (i + 1)"
      using True by (subst swapInit_loop.simps) simp
    have "0 \<le> i + 1" using "1.prems" by simp
    then have ih: "swapInit_loop (sl(i := (sl i)\<lparr>is_free := 1, page_perm := 0\<rparr>)) (i + 1) j =
        (if i + 1 \<le> j \<and> j < 800 then \<lparr>page_perm = 0, is_free = 1\<rparr>
         else (sl(i := (sl i)\<lparr>is_free := 1, page_perm := 0\<rparr>)) j)"
      by (rule "1.IH" [OF True])
    show ?thesis unfolding u ih using True by (auto simp: swap_slot_updates)
  qed
qed

lemma slots_inv_swapInit: "slots_inv (swapInit s)"
  by (simp add: slots_inv_def swapInit_def cprintf_def swapInit_loop_spec)

lemma slots_inv_findslot: "slots_inv s \<Longrightarrow> findslot s = (r, s') \<Longrightarrow> slots_inv s'"
  using findslot_cases [of s r s'] by (auto simp: slots_inv_def)

lemma slots_inv_freeslot: "slots_inv s \<Longrightarrow> slots_inv (freeslot s i)"
  by (simp add: slots_inv_def freeslot_def)

lemma slots_inv_findpage: "slots_inv s \<Longrightarrow> findpage s pg = (r, s') \<Longrightarrow> slots_inv s'"
  by (auto simp: slots_inv_def findpage_def Let_def lcr3_def split: option.splits)

lemma slots_inv_swappageout:
  "slots_inv s \<Longrightarrow> swappageout s pg va pa = (r, s') \<Longrightarrow> slots_inv s'"
  using swappageout_cases [of s pg va pa r s'] by (auto simp: slots_inv_def swapped_out_def)

lemma slots_inv_same_slots: "slots s' = slots s \<Longrightarrow> slots_inv s \<Longrightarrow> slots_inv s'"
  by (simp add: slots_inv_def)

lemma slots_inv_checkAswap: "slots_inv s \<Longrightarrow> slots_inv (checkAswap s)"
proof (rule checkAswap_keeps [where P = slots_inv])
  fix s pg r s' assume "slots_inv s" "findpage s pg = (r, s')"
  then show "slots_inv s'" by (rule slots_inv_findpage)
next
  fix s pg va pa r s' assume "slots_inv s" "swappageout s pg va pa = (r, s')"
  then show "slots_inv s'" by (rule slots_inv_swappageout)
next
  fix s :: kernel and v pa assume "slots_inv s"
  then show "slots_inv (kfree (s\<lparr>ptable := (ptable s)[v := (ptable s ! v)\<lparr>rss := wrap32 (rss (ptable s ! v) - 1)\<rparr>]\<rparr>) pa)"
    by (simp add: slots_inv_def kfree_def)
next
  fix s :: kernel and t n c assume "slots_inv s"
  then show "slots_inv (s\<lparr>threshold := t, npages_to_swap := n, console := c\<rparr>)"
    by (simp add: slots_inv_def)
qed

lemma slots_inv_swapout: "slots_inv s \<Longrightarrow> slots_inv (swapout s)"
proof (rule swapout_keeps [where P = slots_inv])
  fix s pg r s' assume "slots_inv s" "findpage s pg = (r, s')"
  then show "slots_inv s'" by (rule slots_inv_findpage)
next
  fix s pg va pa r s' assume "slots_inv s" "swappageout s pg va pa = (r, s')"
  then show "slots_inv s'" by (rule slots_inv_swappageout)
next
  fix s :: kernel and v pa assume "slots_inv s"
  then show "slots_inv (kfree (s\<lparr>ptable := (ptable s)[v := (ptable s ! v)\<lparr>rss := wrap32 (rss (ptable s ! v) - 1)\<rparr>]\<rparr>) pa)"
    by (simp add: slots_inv_def kfree_def)
qed

lemma slots_inv_kalloc: "slots_inv s \<Longrightarrow> kalloc s = (r, s') \<Longrightarrow> slots_inv s'"
  by (auto simp: slots_inv_def kalloc_def split: list.splits)

lemma slots_inv_swappage_in_frame:
  assumes "slots_inv s" "swappage_in_frame s pg page_addr k m = (r, s')"
  shows "slots_inv s'"
proof -
  let ?s1 = "s\<lparr>physmem := swappage_in_read (physmem s) (disk s) (2 + nat k * 8) m\<rparr>"
  obtain r2 s2 where mp: "mappages ?s1 pg page_addr m (page_perm (slots ?s1 k) OR PTE_P) = (r2, s2)"
    by fastforce
  then have sl: "slots s2 = slots s" by (auto simp: mappages_def split: option.splits)
  then have i2: "slots_inv s2" using assms(1) by (rule slots_inv_same_slots)
  show ?thesis
  proof (cases "r2 < 0")
    case True
    with assms(2) mp have "s' = kfree s2 m" by (simp add: swappage_in_frame_def Let_def)
    with i2 show ?thesis by (simp add: slots_inv_def kfree_def)
  next
    case False
    let ?s3 = "freeslot s2 k"
    have i3: "slots_inv ?s3" using i2 by (rule slots_inv_freeslot)
    from False assms(2) mp have "slots s' = slots ?s3"
      by (auto simp: swappage_in_frame_def Let_def split: option.splits)
    then show ?thesis using i3 by (rule slots_inv_same_slots)
  qed
qed

lemma slots_inv_swappage_in:
  assumes "slots_inv s" "swappage_in s pg va = (r, s')"
  shows "slots_inv s'"
proof -
  let ?a = "unat (PGROUNDDOWN va)"
  show ?thesis
  proof (cases "walkpgdir (pagetables s) pg ?a")
    case None
    with assms show ?thesis by (simp add: swappage_in_def Let_def)
  next
    case (Some pte)
    show ?thesis
    proof (cases "pte AND PTE_P \<noteq> 0 \<or> pte_slot pte < 0 \<or> 800 \<le> pte_slot pte \<or>
                  is_free (slots s (pte_slot pte)) \<noteq> 0")
      case True
      with assms Some have "s' = s" by (auto simp: swappage_in_def Let_def split: if_splits)
      with assms(1) show ?thesis by simp
    next
      case False
      obtain m1 s1 where k1: "kalloc s = (m1, s1)" by fastforce
      have i1: "slots_inv s1" using assms(1) k1 by (rule slots_inv_kalloc)
      show ?thesis
      proof (cases m1)
        case (Some m)
        with assms(2) \<open>walkpgdir (pagetables s) pg ?a = Some pte\<close> False k1
        have "swappage_in_frame s1 pg ?a (pte_slot pte) m = (r, s')"
          by (simp add: swappage_in_def Let_def)
        with i1 show ?thesis by (rule slots_inv_swappage_in_frame)
      next
        case None
        obtain m2 s2 where k2: "kalloc (checkAswap s1) = (m2, s2)" by fastforce
        have i2: "slots_inv s2" using slots_inv_checkAswap [OF i1] k2 by (rule slots_inv_kalloc)
        show ?thesis
        proof (cases m2)
          case None
          with assms(2) \<open>walkpgdir (pagetables s) pg ?a = Some pte\<close> False k1 \<open>m1 = None\<close> k2
          have "s' = s2" by (simp add: swappage_in_def Let_def)
          with i2 show ?thesis by simp
        next
          case (Some m)
          with assms(2) \<open>walkpgdir (pagetables s) pg ?a = Some pte\<close> False k1 \<open>m1 = None\<close> k2
          have "swappage_in_frame s2 pg ?a (pte_slot pte) m = (r, s')"
            by (simp add: swappage_in_def Let_def)
          with i2 show ?thesis by (rule slots_inv_swappage_in_frame)
        qed
      qed
    qed
  qed
qed

lemma slots_inv_swapFree: "slots_inv s \<Longrightarrow> slots_inv (swapFree s p)"
  by (subst swapFree_eq) (auto simp add: slots_inv_def)

lemma slots_inv_duplicateslot_found:
  assumes "slots_inv s" "is_free (slots s c) = 0"
  shows "slots_inv (snd (duplicateslot_found s p c))"
  using assms by (simp add: slots_inv_def duplicateslot_found_def Let_def)

lemma findslot_used:
  "findslot s = (c, s') \<Longrightarrow> \<not> c < 0 \<Longrightarrow> is_free (slots s' c) = 0"
  using findslot_cases [of s c s'] by auto

lemma slots_inv_duplicateslot:
  assumes "slots_inv s" "duplicateslot s p = (r, s')"
  shows "slots_inv s'"
proof (cases "p < 0 \<or> p \<ge> 800 \<or> is_free (slots s p) \<noteq> 0")
  case True
  with assms show ?thesis by (auto simp: duplicateslot_def)
next
  case ok: False
  obtain c1 s1 where f1: "findslot s = (c1, s1)" by fastforce
  have i1: "slots_inv s1" using assms(1) f1 by (rule slots_inv_findslot)
  show ?thesis
  proof (cases "c1 < 0")
    case False
    with assms(2) ok f1 have "s' = snd (duplicateslot_found s1 p c1)"
      by (auto simp: duplicateslot_def)
    with slots_inv_duplicateslot_found [OF i1 findslot_used [OF f1 False]] show ?thesis by simp
  next
    case n1: True
    obtain c2 s2 where f2: "findslot (checkAswap s1) = (c2, s2)" by fastforce
    have i2: "slots_inv s2" using slots_inv_checkAswap [OF i1] f2 by (rule slots_inv_findslot)
    show ?thesis
    proof (cases "c2 < 0")
      case False
      with assms(2) ok f1 n1 f2 have "s' = snd (duplicateslot_found s2 p c2)"
        by (auto simp: duplicateslot_def)
      with slots_inv_duplicateslot_found [OF i2 findslot_used [OF f2 False]] show ?thesis by simp
    next
      case n2: True
      obtain c3 s3 where f3: "findslot (checkAswap s2) = (c3, s3)" by fastforce
      have i3: "slots_inv s3" using slots_inv_checkAswap [OF i2] f3 by (rule slots_inv_findslot)
      show ?thesis
      proof (cases "c3 < 0")
        case True
        with assms(2) ok f1 n1 f2 n2 f3 have "s' = s3" by (auto simp: duplicateslot_def)
        with i3 show ?thesis by simp
      next
        case False
        with assms(2) ok f1 n1 f2 n2 f3 have "s' = snd (duplicateslot_found s3 p c3)"
          by (auto simp: duplicateslot_def)
        with slots_inv_duplicateslot_found [OF i3 findslot_used [OF f3 False]] show ?thesis by simp
      qed
    qed
  qed
qed

text \<open>
  C10. The invariant: every slot from 0 to 799 that is marked free has \<open>page_perm = 0\<close>.
  It holds after \<open>swapInit\<close>, whatever the state before, and \<open>findslot\<close>, \<open>freeslot\<close>,
  \<open>duplicateslot\<close>, \<open>swappageout\<close>, \<open>swappage_in\<close> and \<open>swapFree\<close> keep it, as do
  \<open>findpage\<close>, \<open>swapout\<close> and \<open>checkAswap\<close>, through which they reach the slot table.
\<close>

theorem slots_inv_kept:
  "slots_inv (swapInit s0) \<and>
   (slots_inv s \<longrightarrow>
      slots_inv (snd (findslot s)) \<and>
      slots_inv (freeslot s i) \<and>
      slots_inv (snd (duplicateslot s i)) \<and>
      slots_inv (snd (swappageout s pg va pa)) \<and>
      slots_inv (snd (swappage_in s pg fa)) \<and>
      slots_inv (swapFree s p) \<and>
      slots_inv (snd (findpage s pg)) \<and>
      slots_inv (swapout s) \<and>
      slots_inv (checkAswap s))"
proof (intro conjI impI)
  show "slots_inv (swapInit s0)" by (rule slots_inv_swapInit)
next
  assume i: "slots_inv s"
  show "slots_inv (snd (findslot s))"
    using i by (rule slots_inv_findslot) (rule prod.collapse [symmetric])
  show "slots_inv (freeslot s i)" using i by (rule slots_inv_freeslot)
  show "slots_inv (snd (duplicateslot s i))"
    using i by (rule slots_inv_duplicateslot) (rule prod.collapse [symmetric])
  show "slots_inv (snd (swappageout s pg va pa))"
    using i by (rule slots_inv_swappageout) (rule prod.collapse [symmetric])
  show "slots_inv (snd (swappage_in s pg fa))"
    using i by (rule slots_inv_swappage_in) (rule prod.collapse [symmetric])
  show "slots_inv (swapFree s p)" using i by (rule slots_inv_swapFree)
  show "slots_inv (snd (findpage s pg))"
    using i by (rule slots_inv_findpage) (rule prod.collapse [symmetric])
  show "slots_inv (swapout s)" using i by (rule slots_inv_swapout)
  show "slots_inv (checkAswap s)" using i by (rule slots_inv_checkAswap)
qed

theorem slots_inv_kept_witness:
  "slots_inv one_page \<and>
   slots_inv (snd (swappageout one_page 1 (3 * 4096) 0x67000)) \<and>
   is_free (slots (snd (swappageout one_page 1 (3 * 4096) 0x67000)) 1) = 0 \<and>
   page_perm (slots (snd (swappageout one_page 1 (3 * 4096) 0x67000)) 1) = 0x27 \<and>
   slots_inv (freeslot (snd (swappageout one_page 1 (3 * 4096) 0x67000)) 1) \<and>
   is_free (slots (freeslot (snd (swappageout one_page 1 (3 * 4096) 0x67000)) 1) 1) = 1 \<and>
   page_perm (slots (freeslot (snd (swappageout one_page 1 (3 * 4096) 0x67000)) 1) 1) = 0"
proof -
  have i: "slots_inv one_page"
    by (simp add: slots_inv_def one_page_def boot_def used_slot_def free_slot_def)
  have e: "is_free (slots (snd (swappageout one_page 1 (3 * 4096) 0x67000)) 1) = 0"
    "page_perm (slots (snd (swappageout one_page 1 (3 * 4096) 0x67000)) 1) = 0x27"
    by (simp_all add: swappageout_eval one_page_def boot_def used_slot_def free_slot_def)
  have f: "is_free (slots (freeslot (snd (swappageout one_page 1 (3 * 4096) 0x67000)) 1) 1) = 1"
    "page_perm (slots (freeslot (snd (swappageout one_page 1 (3 * 4096) 0x67000)) 1) 1) = 0"
    by (simp_all add: freeslot_def)
  from slots_inv_kept [of boot one_page 1 1 "3 * 4096" "0x67000" 0 None]
    slots_inv_kept [of boot "snd (swappageout one_page 1 (3 * 4096) 0x67000)" 1 1 0 0 0 None]
    i e f
  show ?thesis by simp
qed

section \<open>Round trip of a page through its slot\<close>

text \<open>The eight writes of \<open>swappageout\<close> put the frame at \<open>pa\<close> into the blocks from \<open>b\<close>
  on and touch no other block.\<close>

lemma page_write_upto:
  "fold (\<lambda>i d. bwrite d (b + i)
                    (memmove (bread d (b + i)) 0 (\<lambda>k. mem (pa + i * BSIZE + k)) BSIZE))
        [0..<n] d blk j =
     (if b \<le> blk \<and> blk < b + n \<and> j < BSIZE then mem (pa + (blk - b) * BSIZE + j) else d blk j)"
proof (induction n)
  case 0
  then show ?case by auto
next
  case (Suc n)
  let ?f = "\<lambda>i d. bwrite d (b + i)
                    (memmove (bread d (b + i)) 0 (\<lambda>k. mem (pa + i * BSIZE + k)) BSIZE)"
  define D where "D = fold ?f [0..<n] d"
  have ih: "D blk j =
     (if b \<le> blk \<and> blk < b + n \<and> j < BSIZE then mem (pa + (blk - b) * BSIZE + j) else d blk j)"
    unfolding D_def by (rule Suc)
  have step: "fold ?f [0..<Suc n] d = ?f n D"
    unfolding D_def by simp
  show ?case
  proof (cases "blk = b + n")
    case True
    have "?f n D blk j = (if j < BSIZE then mem (pa + n * BSIZE + j) else D blk j)"
      using True by (simp add: bwrite_def bread_def memmove_def)
    with True ih show ?thesis unfolding step by simp
  next
    case False
    then have "?f n D blk j = D blk j" by (simp add: bwrite_def)
    moreover have "(b \<le> blk \<and> blk < b + Suc n \<and> j < BSIZE) = (b \<le> blk \<and> blk < b + n \<and> j < BSIZE)"
      using False by auto
    ultimately show ?thesis unfolding step using ih by (simp only:)
  qed
qed

lemma swappageout_write_spec:
  "swappageout_write mem d b pa blk j =
     (if b \<le> blk \<and> blk < b + 8 \<and> j < BSIZE then mem (unat pa + (blk - b) * BSIZE + j)
      else d blk j)"
  unfolding swappageout_write_def by (rule page_write_upto)

text \<open>The eight reads of \<open>swappage_in\<close> fill the frame at \<open>m\<close> from the blocks from \<open>b\<close>
  on and touch no other byte of memory.\<close>

lemma page_read_upto:
  "fold (\<lambda>i mem. memmove mem (m + i * BSIZE) (bread d (b + i)) BSIZE) [0..<n] mem a =
     (if m \<le> a \<and> a < m + n * BSIZE then d (b + (a - m) div BSIZE) ((a - m) mod BSIZE)
      else mem a)"
proof (induction n)
  case 0
  then show ?case by auto
next
  case (Suc n)
  let ?f = "\<lambda>i mem. memmove mem (m + i * BSIZE) (bread d (b + i)) BSIZE"
  define M where "M = fold ?f [0..<n] mem"
  have ih: "M a =
     (if m \<le> a \<and> a < m + n * BSIZE then d (b + (a - m) div BSIZE) ((a - m) mod BSIZE)
      else mem a)"
    unfolding M_def by (rule Suc)
  have step: "fold ?f [0..<Suc n] mem = ?f n M"
    unfolding M_def by simp
  show ?case
  proof (cases "m + n * BSIZE \<le> a \<and> a < m + n * BSIZE + BSIZE")
    case True
    then have o: "a - (m + n * BSIZE) < BSIZE" by auto
    have "a - m = n * BSIZE + (a - (m + n * BSIZE))" using True by auto
    then have dm: "(a - m) div BSIZE = n" "(a - m) mod BSIZE = a - (m + n * BSIZE)"
      using o by (simp_all add: BSIZE_def)
    have "?f n M a = d (b + n) (a - (m + n * BSIZE))"
      using True by (simp add: memmove_def bread_def)
    with True dm show ?thesis unfolding step by auto
  next
    case False
    then have "?f n M a = M a" by (auto simp: memmove_def)
    moreover have "(m \<le> a \<and> a < m + Suc n * BSIZE) = (m \<le> a \<and> a < m + n * BSIZE)"
      using False by auto
    ultimately show ?thesis unfolding step using ih by (simp only:)
  qed
qed

lemma swappage_in_read_spec:
  "swappage_in_read mem d b m a =
     (if unat m \<le> a \<and> a < unat m + 8 * BSIZE
      then d (b + (a - unat m) div BSIZE) ((a - unat m) mod BSIZE)
      else mem a)"
  unfolding swappage_in_read_def by (rule page_read_upto)

lemma page_round_trip:
  assumes "off < 4096"
    and "\<forall>i<8. d' (b + i) = swappageout_write mem d b pa (b + i)"
  shows "swappage_in_read mem' d' b m (unat m + off) = mem (unat pa + off)"
proof -
  have i: "off div BSIZE < 8" and j: "off mod BSIZE < BSIZE"
    using assms(1) by (simp_all add: BSIZE_def)
  have "swappage_in_read mem' d' b m (unat m + off) = d' (b + off div BSIZE) (off mod BSIZE)"
    using assms(1) by (simp add: swappage_in_read_spec BSIZE_def)
  also have "\<dots> = swappageout_write mem d b pa (b + off div BSIZE) (off mod BSIZE)"
    using assms(2) i by simp
  also have "\<dots> = mem (unat pa + off div BSIZE * BSIZE + off mod BSIZE)"
    using i j by (simp add: swappageout_write_spec)
  also have "\<dots> = mem (unat pa + off)"
    by (simp add: add.assoc)
  finally show ?thesis .
qed

text \<open>The page number of an address and of the address rounded down are the same.\<close>

lemma PGROUNDDOWN_page: "unat (PGROUNDDOWN a) div PGSIZE = unat a div PGSIZE"
proof -
  have r: "PGROUNDDOWN a = a AND NOT (mask 12)"
    by (simp add: PGROUNDDOWN_def PGSIZE_def mask_eq_exp_minus_1)
  have "drop_bit 12 (a AND NOT (mask 12)) = drop_bit 12 a"
    by (rule bit_eqI) (auto simp: bit_simps dest: bit_imp_le_length)
  then have "unat (drop_bit 12 (PGROUNDDOWN a)) = unat (drop_bit 12 a)"
    by (simp add: r)
  then show ?thesis
    by (simp add: drop_bit_eq_div unat_div PGSIZE_def)
qed

text \<open>A page-aligned frame address and twelve flag bits combine without overlap.\<close>

lemma map_entry_bits:
  fixes m f :: "32 word"
  assumes "m AND 0xFFF = 0"
  shows "(m OR ((f AND 0xFFF) OR PTE_P) OR PTE_P) AND 0xFFF = (f AND 0xFFF) OR PTE_P"
    and "PTE_ADDR (m OR ((f AND 0xFFF) OR PTE_P) OR PTE_P) = m"
    and "(m OR ((f AND 0xFFF) OR PTE_P) OR PTE_P) AND PTE_P \<noteq> 0"
proof -
  have mb: "\<And>n. bit m n \<Longrightarrow> 12 \<le> n"
  proof (rule ccontr)
    fix n assume b: "bit m n" and "\<not> 12 \<le> n"
    then have "bit (m AND mask 12) n" by (simp add: bit_simps)
    with assms show False by (simp add: fff_mask)
  qed
  show "(m OR ((f AND 0xFFF) OR PTE_P) OR PTE_P) AND 0xFFF = (f AND 0xFFF) OR PTE_P"
    unfolding fff_mask PTE_P_def
    by (rule bit_eqI) (auto simp: bit_simps dest: mb)
  show "PTE_ADDR (m OR ((f AND 0xFFF) OR PTE_P) OR PTE_P) = m"
    unfolding fff_mask PTE_P_def PTE_ADDR_def
    by (rule bit_eqI) (auto simp: bit_simps dest: mb)
  have "bit ((m OR ((f AND 0xFFF) OR PTE_P) OR PTE_P) AND PTE_P) 0"
    unfolding PTE_P_def by (simp add: bit_simps)
  then show "(m OR ((f AND 0xFFF) OR PTE_P) OR PTE_P) AND PTE_P \<noteq> 0"
    by auto
qed

text \<open>What eviction of other pages leaves alone: a slot in use, its eight blocks, and a
  leaf entry that is not present; and the frames on the free list stay page-aligned.\<close>

definition keeps :: "int \<Rightarrow> nat \<Rightarrow> nat \<Rightarrow> kernel \<Rightarrow> kernel \<Rightarrow> bool" where
  "keeps k pg vpn s0 s =
     (slots s k = slots s0 k \<and>
      (\<forall>i<8. disk s (2 + nat k * 8 + i) = disk s0 (2 + nat k * 8 + i)) \<and>
      pagetables s pg vpn = pagetables s0 pg vpn \<and>
      (\<forall>a\<in>set (freelist s). a AND 0xFFF = 0))"

lemma keeps_findpage:
  assumes "keeps k pg vpn s0 s" "findpage s pg' = (r, s')"
    and np: "\<not> user_present (pagetables s0 pg vpn)"
  shows "keeps k pg vpn s0 s'"
proof -
  have e: "pagetables s pg vpn = pagetables s0 pg vpn" using assms(1) by (simp add: keeps_def)
  from findpage_cases [OF assms(2)] have "s' = s \<or> s' = findpage_swept s pg'" by blast
  then show ?thesis
  proof
    assume "s' = s" with assms(1) show ?thesis by simp
  next
    assume s': "s' = findpage_swept s pg'"
    have "pagetables (findpage_swept s pg') pg vpn = pagetables s pg vpn"
    proof (cases "pg' = pg")
      case True
      with np e show ?thesis by (simp add: findpage_swept_other)
    next
      case False
      then show ?thesis by (simp add: findpage_swept_other_dir)
    qed
    moreover have "slots (findpage_swept s pg') = slots s" "disk (findpage_swept s pg') = disk s"
      "freelist (findpage_swept s pg') = freelist s"
      by (simp_all add: findpage_swept_def)
    ultimately show ?thesis using assms(1) unfolding s' keeps_def by simp
  qed
qed

lemma other_slot_blocks:
  assumes "0 \<le> k" "0 \<le> k'" "k \<noteq> k'" "i < 8"
  shows "\<not> (2 + nat k' * 8 \<le> 2 + nat k * 8 + i \<and> 2 + nat k * 8 + i < 2 + nat k' * 8 + 8)"
proof -
  have "nat k \<noteq> nat k'" using assms by simp
  then have "nat k < nat k' \<or> nat k' < nat k" by linarith
  then show ?thesis using assms(4) by auto
qed

lemma keeps_swappageout:
  assumes "keeps k pg vpn s0 s" "swappageout s pg' va pa = (r, s')"
    and k: "0 \<le> k" "is_free (slots s0 k) = 0"
    and np: "\<not> user_present (pagetables s0 pg vpn)" "\<forall>pte. pagetables s0 pg vpn = Some pte \<longrightarrow> pte AND PTE_P = 0"
  shows "keeps k pg vpn s0 s'"
proof -
  have sk: "slots s k = slots s0 k" and e: "pagetables s pg vpn = pagetables s0 pg vpn"
    using assms(1) by (simp_all add: keeps_def)
  from swappageout_cases [OF assms(2)]
  consider "s' = s"
    | k' where "0 \<le> k'" "is_free (slots s k') \<noteq> 0"
        "s' = s\<lparr>slots := (slots s)(k' := (slots s k')\<lparr>is_free := 0\<rparr>)\<rparr>"
    | k' pte where "0 \<le> k'" "is_free (slots s k') \<noteq> 0"
        "walkpgdir (pagetables s) pg' va = Some pte" "pte AND PTE_P \<noteq> 0"
        "s' = swapped_out s pg' va pa k' pte"
    by blast
  then show ?thesis
  proof cases
    case 1
    with assms(1) show ?thesis by simp
  next
    case 2
    have "k' \<noteq> k" using 2(2) sk k(2) by auto
    with assms(1) show ?thesis unfolding 2(3) keeps_def by simp
  next
    case 3
    have ne: "k' \<noteq> k" using 3(2) sk k(2) by auto
    have d: "\<forall>i<8. disk s' (2 + nat k * 8 + i) = disk s (2 + nat k * 8 + i)"
    proof (intro allI impI)
      fix i :: nat assume "i < 8"
      from other_slot_blocks [OF k(1) 3(1) ne [symmetric] this]
      show "disk s' (2 + nat k * 8 + i) = disk s (2 + nat k * 8 + i)"
        unfolding 3(5) swapped_out_def by (intro ext) (auto simp add: swappageout_write_spec)
    qed
    have "\<not> (pg' = pg \<and> va div PGSIZE = vpn)"
    proof
      assume "pg' = pg \<and> va div PGSIZE = vpn"
      with 3(3) e have "pagetables s0 pg vpn = Some pte" by (simp add: walkpgdir_def)
      with np(2) 3(4) show False by simp
    qed
    then have "pagetables s' pg vpn = pagetables s pg vpn"
      unfolding 3(5) swapped_out_def by (auto simp: set_pte_def)
    moreover have "slots s' k = slots s k" "freelist s' = freelist s"
      using ne unfolding 3(5) swapped_out_def by simp_all
    ultimately show ?thesis using assms(1) d unfolding keeps_def by simp
  qed
qed

lemma keeps_checkAswap:
  assumes "keeps k pg vpn s0 s"
    and k: "0 \<le> k" "is_free (slots s0 k) = 0"
    and np: "\<not> user_present (pagetables s0 pg vpn)" "\<forall>pte. pagetables s0 pg vpn = Some pte \<longrightarrow> pte AND PTE_P = 0"
  shows "keeps k pg vpn s0 (checkAswap s)"
proof (rule checkAswap_keeps [where P = "keeps k pg vpn s0"])
  fix s pg' r s' assume "keeps k pg vpn s0 s" "findpage s pg' = (r, s')"
  then show "keeps k pg vpn s0 s'" using np(1) by (rule keeps_findpage)
next
  fix s pg' va pa r s' assume "keeps k pg vpn s0 s" "swappageout s pg' va pa = (r, s')"
  then show "keeps k pg vpn s0 s'" using k np by (rule keeps_swappageout)
next
  fix s :: kernel and v and pa :: "32 word" assume "keeps k pg vpn s0 s" "pa AND 0xFFF = 0"
  then show "keeps k pg vpn s0 (kfree (s\<lparr>ptable := (ptable s)[v := (ptable s ! v)\<lparr>rss := wrap32 (rss (ptable s ! v) - 1)\<rparr>]\<rparr>) pa)"
    by (simp add: keeps_def kfree_def)
next
  fix s :: kernel and t n c assume "keeps k pg vpn s0 s"
  then show "keeps k pg vpn s0 (s\<lparr>threshold := t, npages_to_swap := n, console := c\<rparr>)"
    by (simp add: keeps_def)
next
  show "keeps k pg vpn s0 s" by (rule assms(1))
qed

lemma keeps_kalloc:
  assumes "keeps k pg vpn s0 s" "kalloc s = (Some m, s')"
  shows "keeps k pg vpn s0 s' \<and> m AND 0xFFF = 0"
  using assms by (auto simp: keeps_def kalloc_def split: list.splits)

text \<open>\<open>swappage_in\<close> from the frame on, in a state that still holds the slot's content and
  the swapped entry.\<close>

lemma swappage_in_frame_restores:
  assumes "swappage_in_frame s pg (unat (PGROUNDDOWN fa)) k m = (r, s')"
    and "pagetables s pg (unat fa div PGSIZE) = Some e"
    and "m AND 0xFFF = 0"
  shows "r = 0 \<and>
         pagetables s' pg (unat fa div PGSIZE) = Some (m OR (page_perm (slots s k) OR PTE_P) OR PTE_P) \<and>
         physmem s' = swappage_in_read (physmem s) (disk s) (2 + nat k * 8) m"
proof -
  let ?a = "unat (PGROUNDDOWN fa)"
  let ?s1 = "s\<lparr>physmem := swappage_in_read (physmem s) (disk s) (2 + nat k * 8) m\<rparr>"
  let ?perm = "page_perm (slots s k) OR PTE_P"
  have w: "walkpgdir (pagetables ?s1) pg ?a = Some e"
    using assms(2) by (simp add: walkpgdir_def PGROUNDDOWN_page)
  have mp: "mappages ?s1 pg ?a m ?perm =
      (0, ?s1\<lparr>pagetables := set_pte (pagetables ?s1) pg ?a (m OR ?perm OR PTE_P)\<rparr>)"
    using w by (simp add: mappages_def)
  have "r = 0 \<and> pagetables s' = set_pte (pagetables s) pg ?a (m OR ?perm OR PTE_P) \<and>
        physmem s' = swappage_in_read (physmem s) (disk s) (2 + nat k * 8) m"
    using assms(1) mp
    by (auto simp: swappage_in_frame_def Let_def freeslot_def split: option.splits)
  then show ?thesis by (simp add: set_pte_def PGROUNDDOWN_page)
qed

lemma swappage_in_reaches_frame:
  assumes inn: "swappage_in s1 pg fa = (0, s2)"
    and e: "pagetables s1 pg (unat fa div PGSIZE) = Some e" "e AND PTE_P = 0"
    and k: "pte_slot e = k" "0 \<le> k" "k < 800" "is_free (slots s1 k) = 0"
    and al: "\<forall>a\<in>set (freelist s1). a AND 0xFFF = 0"
  shows "\<exists>sx m. keeps k pg (unat fa div PGSIZE) s1 sx \<and> m AND 0xFFF = 0 \<and>
           swappage_in_frame sx pg (unat (PGROUNDDOWN fa)) k m = (0, s2)"
proof -
  let ?vpn = "unat fa div PGSIZE"
  let ?a = "unat (PGROUNDDOWN fa)"
  have w: "walkpgdir (pagetables s1) pg ?a = Some e"
    using e(1) by (simp add: walkpgdir_def PGROUNDDOWN_page)
  have np: "\<not> user_present (pagetables s1 pg ?vpn)"
    "\<forall>pte. pagetables s1 pg ?vpn = Some pte \<longrightarrow> pte AND PTE_P = 0"
    using e by (simp_all add: user_present_def)
  have k0: "keeps k pg ?vpn s1 s1" using al by (simp add: keeps_def)
  have go: "\<not> (pte_slot e < 0 \<or> 800 \<le> pte_slot e \<or> is_free (slots s1 (pte_slot e)) \<noteq> 0)"
    using k by simp
  obtain m1 sa where ka: "kalloc s1 = (m1, sa)" by fastforce
  show ?thesis
  proof (cases m1)
    case (Some m)
    from inn w e(2) go ka Some have f: "swappage_in_frame sa pg ?a k m = (0, s2)"
      by (simp add: swappage_in_def Let_def k(1))
    from keeps_kalloc [OF k0] ka Some have "keeps k pg ?vpn s1 sa \<and> m AND 0xFFF = 0" by simp
    with f show ?thesis by blast
  next
    case None
    with ka have sa: "sa = s1" by (auto simp: kalloc_def split: list.splits)
    have k1: "keeps k pg ?vpn s1 (checkAswap s1)"
      using k0 k(2,4) np by (rule keeps_checkAswap)
    obtain m2 sb where kb: "kalloc (checkAswap s1) = (m2, sb)" by fastforce
    show ?thesis
    proof (cases m2)
      case None
      with inn w e(2) go ka \<open>m1 = None\<close> sa kb have "(0::int) = -1"
        by (simp add: swappage_in_def Let_def k(1))
      then show ?thesis by simp
    next
      case (Some m)
      with inn w e(2) go ka \<open>m1 = None\<close> sa kb
      have f: "swappage_in_frame sb pg ?a k m = (0, s2)"
        by (simp add: swappage_in_def Let_def k(1))
      from keeps_kalloc [OF k1] kb Some have "keeps k pg ?vpn s1 sb \<and> m AND 0xFFF = 0" by simp
      with f show ?thesis by blast
    qed
  qed
qed

lemma present_flags:
  fixes pte :: "32 word"
  assumes "pte AND PTE_P \<noteq> 0"
  shows "(pte AND 0xFFF) OR PTE_P = pte AND 0xFFF"
proof -
  have "bit pte 0"
  proof (rule ccontr)
    assume "\<not> bit pte 0"
    then have "pte AND 1 = 0" by (intro bit_eqI) (auto simp: bit_simps intro: gr0I)
    with assms show False by (simp add: PTE_P_def)
  qed
  then show ?thesis
    unfolding fff_mask PTE_P_def by (intro bit_eqI) (auto simp: bit_simps)
qed

lemma swap_round_trip_aux:
  assumes out: "swappageout s pg va pa = (0, s1)"
    and pte: "walkpgdir (pagetables s) pg va = Some pte"
    and fa: "unat fa div PGSIZE = va div PGSIZE"
    and inn: "swappage_in s1 pg fa = (0, s2)"
    and al: "\<forall>a\<in>set (freelist s). a AND 0xFFF = 0"
  shows "\<exists>e. walkpgdir (pagetables s2) pg va = Some e \<and>
            e AND 0xFFF = (pte AND 0xFFF) OR PTE_P \<and>
            e AND 0xFFF = pte AND 0xFFF \<and>
            e AND PTE_P \<noteq> 0 \<and>
            (\<forall>off<4096. physmem s2 (unat (PTE_ADDR e) + off) = physmem s (unat pa + off))"
proof -
  let ?vpn = "unat fa div PGSIZE"
  from swappageout_cases [OF out] pte obtain k where k: "0 \<le> k" "k < 800"
    and p: "pte AND PTE_P \<noteq> 0" and s1: "s1 = swapped_out s pg va pa k pte"
    by auto
  let ?e1 = "push_bit 12 (word_of_int k) OR (pte AND NOT PTE_P AND 0xFFF)"
  let ?b = "2 + nat k * 8"
  have e1: "pagetables s1 pg ?vpn = Some ?e1"
    by (simp add: s1 swapped_out_def set_pte_def fa)
  have sl: "slots s1 k = \<lparr>page_perm = pte AND 0xFFF, is_free = 0\<rparr>"
    and d1: "disk s1 = swappageout_write (physmem s) (disk s) ?b pa"
    and fl: "freelist s1 = freelist s"
    by (simp_all add: s1 swapped_out_def)
  have "\<exists>sx m. keeps k pg ?vpn s1 sx \<and> m AND 0xFFF = 0 \<and>
           swappage_in_frame sx pg (unat (PGROUNDDOWN fa)) k m = (0, s2)"
  proof (rule swappage_in_reaches_frame [OF inn e1])
    show "?e1 AND PTE_P = 0" by (rule enc_not_present)
    show "pte_slot ?e1 = k" using k by (rule pte_slot_enc)
    show "0 \<le> k" "k < 800" by (rule k)+
    show "is_free (slots s1 k) = 0" by (simp add: sl)
    show "\<forall>a\<in>set (freelist s1). a AND 0xFFF = 0" using al by (simp add: fl)
  qed
  then obtain sx m where kp: "keeps k pg ?vpn s1 sx" and m: "m AND 0xFFF = 0"
    and f: "swappage_in_frame sx pg (unat (PGROUNDDOWN fa)) k m = (0, s2)"
    by blast
  from kp have ex: "pagetables sx pg ?vpn = Some ?e1" and slx: "slots sx k = slots s1 k"
    and dx: "\<forall>i<8. disk sx (?b + i) = disk s1 (?b + i)"
    by (simp_all add: keeps_def e1)
  let ?e = "m OR ((pte AND 0xFFF) OR PTE_P) OR PTE_P"
  from swappage_in_frame_restores [OF f ex m]
  have e2: "pagetables s2 pg ?vpn = Some ?e"
    and mem2: "physmem s2 = swappage_in_read (physmem sx) (disk sx) ?b m"
    by (simp_all add: slx sl)
  have w2: "walkpgdir (pagetables s2) pg va = Some ?e"
    using e2 by (simp add: walkpgdir_def fa)
  have b1: "?e AND 0xFFF = (pte AND 0xFFF) OR PTE_P" using m by (rule map_entry_bits(1))
  have b2: "PTE_ADDR ?e = m" using m by (rule map_entry_bits(2))
  have b3: "?e AND PTE_P \<noteq> 0" using m by (rule map_entry_bits(3))
  have b4: "?e AND 0xFFF = pte AND 0xFFF" using b1 present_flags [OF p] by simp
  have data: "\<forall>off<4096. physmem s2 (unat (PTE_ADDR ?e) + off) = physmem s (unat pa + off)"
  proof (intro allI impI)
    fix off :: nat assume o: "off < 4096"
    have "\<forall>i<8. disk sx (?b + i) = swappageout_write (physmem s) (disk s) ?b pa (?b + i)"
      using dx by (simp add: d1)
    from page_round_trip [OF o this]
    show "physmem s2 (unat (PTE_ADDR ?e) + off) = physmem s (unat pa + off)"
      unfolding b2 mem2 .
  qed
  from w2 b1 b4 b3 data show ?thesis by blast
qed

text \<open>
  C5. Let \<open>swappageout\<close> succeed on the page at \<open>va\<close> whose leaf entry is \<open>pte\<close> and whose
  frame is at \<open>pa\<close>, and let \<open>swappage_in\<close> then succeed for an address \<open>fa\<close> in the same
  page, the frames of the free list being page-aligned. Then the page is mapped again:
  the low twelve bits of the new entry are those of \<open>pte\<close> with the present bit set (which
  \<open>pte\<close> had), and each of the 4096 bytes of the new frame is the byte the old frame held
  when the page was evicted, whether the frame came straight from the free list or after
  \<open>checkAswap\<close> evicted other pages.
\<close>

theorem swap_round_trip:
  "swappageout s pg va pa = (0, s1) \<Longrightarrow>
   walkpgdir (pagetables s) pg va = Some pte \<Longrightarrow>
   unat fa div PGSIZE = va div PGSIZE \<Longrightarrow>
   swappage_in s1 pg fa = (0, s2) \<Longrightarrow>
   \<forall>a\<in>set (freelist s). a AND 0xFFF = 0 \<Longrightarrow>
   \<exists>e. walkpgdir (pagetables s2) pg va = Some e \<and>
       e AND 0xFFF = (pte AND 0xFFF) OR PTE_P \<and>
       e AND 0xFFF = pte AND 0xFFF \<and>
       e AND PTE_P \<noteq> 0 \<and>
       (\<forall>off<4096. physmem s2 (unat (PTE_ADDR e) + off) = physmem s (unat pa + off))"
  by (rule swap_round_trip_aux)

text \<open>The resident page of \<open>one_page\<close> is evicted and faulted back in at an address inside
  it, with one free frame at 0x80000.\<close>

definition rt_kernel :: kernel where
  "rt_kernel = one_page\<lparr>freelist := [0x80000]\<rparr>"

definition rt_out :: kernel where
  "rt_out = snd (swappageout rt_kernel 1 (3 * 4096) 0x67000)"

definition rt_in :: kernel where
  "rt_in = snd (swappage_in rt_out 1 0x3abc)"

lemmas rt_eval =
  rt_out_def rt_kernel_def one_page_def boot_def used_slot_def free_slot_def swappageout_eval
  swappage_in_def swappage_in_frame_def mappages_def kalloc_def freeslot_def
  PGROUNDDOWN_def pte_slot_def PTE_ADDR_def

theorem swap_round_trip_witness:
  "swappageout rt_kernel 1 (3 * 4096) 0x67000 = (0, rt_out) \<and>
   walkpgdir (pagetables rt_kernel) 1 (3 * 4096) = Some 0x67027 \<and>
   unat (0x3abc :: 32 word) div PGSIZE = 3 * 4096 div PGSIZE \<and>
   swappage_in rt_out 1 0x3abc = (0, rt_in) \<and>
   freelist rt_kernel = [0x80000] \<and> (0x80000 :: 32 word) AND 0xFFF = 0 \<and>
   walkpgdir (pagetables rt_in) 1 (3 * 4096) = Some 0x80027 \<and>
   physmem rt_in (unat (0x80000 :: 32 word) + 5) = physmem rt_kernel (unat (0x67000 :: 32 word) + 5)"
proof -
  have r1: "fst (swappageout rt_kernel 1 (3 * 4096) 0x67000) = 0"
    by (simp add: rt_eval)
  have h1: "swappageout rt_kernel 1 (3 * 4096) 0x67000 = (0, rt_out)"
    unfolding rt_out_def using r1 by (metis prod.collapse)
  have h2: "walkpgdir (pagetables rt_kernel) 1 (3 * 4096) = Some 0x67027"
    by (simp add: rt_kernel_def one_page_def walkpgdir_def PGSIZE_def)
  have h3: "unat (0x3abc :: 32 word) div PGSIZE = 3 * 4096 div PGSIZE"
    by (simp add: PGSIZE_def)
  have r4: "fst (swappage_in rt_out 1 0x3abc) = 0"
    by (simp add: rt_eval)
  have h4: "swappage_in rt_out 1 0x3abc = (0, rt_in)"
    unfolding rt_in_def using r4 by (metis prod.collapse)
  have fl: "freelist rt_kernel = [0x80000]" by (simp add: rt_kernel_def)
  have al: "(0x80000 :: 32 word) AND 0xFFF = 0" by simp
  have h5: "\<forall>a\<in>set (freelist rt_kernel). a AND 0xFFF = 0" by (simp add: fl)
  have e: "walkpgdir (pagetables rt_in) 1 (3 * 4096) = Some 0x80027"
    unfolding rt_in_def by (simp add: rt_eval)
  from swap_round_trip [OF h1 h2 h3 h4 h5] e
  have "\<forall>off<4096. physmem rt_in (unat (PTE_ADDR 0x80027) + off)
          = physmem rt_kernel (unat (0x67000 :: 32 word) + off)"
    by auto
  then have "physmem rt_in (unat (PTE_ADDR 0x80027) + 5)
          = physmem rt_kernel (unat (0x67000 :: 32 word) + 5)"
    by simp
  then have d: "physmem rt_in (unat (0x80000 :: 32 word) + 5)
          = physmem rt_kernel (unat (0x67000 :: 32 word) + 5)"
    by (simp add: PTE_ADDR_def)
  from h1 h2 h3 h4 fl al e d show ?thesis by (simp only: simp_thms)
qed

end
